theory Spec2Isabelle
  imports Complex_Main "HOL-Library.Log_Nat" "HOL-Library.Sublist"
begin

section \<open>Strings of the Go standard library\<close>

text \<open>
  A Go string is a sequence of bytes, here a \<^typ>\<open>string\<close>. The program splits lines
  with \<^verbatim>\<open>strings.Split\<close>, tests \<^verbatim>\<open>strings.Contains\<close>, trims with
  \<^verbatim>\<open>strings.TrimSpace\<close>, tokenises with \<^verbatim>\<open>strings.Fields\<close> and parses
  with \<^verbatim>\<open>strconv.ParseInt(s, 10, 64)\<close>.
\<close>

text \<open>\<^verbatim>\<open>strings.Split(s, sep)\<close> for a one-byte separator: never empty, \<open>n\<close> separators
  give \<open>n + 1\<close> fields.\<close>

fun splitOn :: "char \<Rightarrow> string \<Rightarrow> string list" where
  "splitOn s [] = [[]]"
| "splitOn s (c # cs) =
     (let r = splitOn s cs in if c = s then [] # r else (c # hd r) # tl r)"

text \<open>\<^verbatim>\<open>strings.Contains(s, substr)\<close>: \<open>substr\<close> occurs in \<open>s\<close> as a contiguous run of
  bytes.\<close>

fun Contains :: "string \<Rightarrow> string \<Rightarrow> bool" where
  "Contains [] sub = (sub = [])"
| "Contains (c # cs) sub = (prefix sub (c # cs) \<or> Contains cs sub)"

text \<open>The UTF-8 encodings of the code points for which \<^verbatim>\<open>unicode.IsSpace\<close> holds:
  tab, line feed, vertical tab, form feed, carriage return, space, U+0085, U+00A0, U+1680,
  U+2000 to U+200A, U+2028, U+2029, U+202F, U+205F and U+3000. Each starts with a byte that
  is never a continuation byte, so matching the bytes is matching the decoded rune.\<close>

definition space_runes :: "string list" where
  "space_runes =
     [[CHR 0x09], [CHR 0x0A], [CHR 0x0B], [CHR 0x0C], [CHR 0x0D], [CHR 0x20],
      [CHR 0xC2, CHR 0x85], [CHR 0xC2, CHR 0xA0],
      [CHR 0xE1, CHR 0x9A, CHR 0x80],
      [CHR 0xE2, CHR 0x80, CHR 0x80], [CHR 0xE2, CHR 0x80, CHR 0x81],
      [CHR 0xE2, CHR 0x80, CHR 0x82], [CHR 0xE2, CHR 0x80, CHR 0x83],
      [CHR 0xE2, CHR 0x80, CHR 0x84], [CHR 0xE2, CHR 0x80, CHR 0x85],
      [CHR 0xE2, CHR 0x80, CHR 0x86], [CHR 0xE2, CHR 0x80, CHR 0x87],
      [CHR 0xE2, CHR 0x80, CHR 0x88], [CHR 0xE2, CHR 0x80, CHR 0x89],
      [CHR 0xE2, CHR 0x80, CHR 0x8A],
      [CHR 0xE2, CHR 0x80, CHR 0xA8], [CHR 0xE2, CHR 0x80, CHR 0xA9],
      [CHR 0xE2, CHR 0x80, CHR 0xAF],
      [CHR 0xE2, CHR 0x81, CHR 0x9F],
      [CHR 0xE3, CHR 0x80, CHR 0x80]]"

text \<open>The number of bytes of the white-space rune at the start (the end) of a string,
  \<open>0\<close> when there is none.\<close>

definition space_len :: "string \<Rightarrow> nat" where
  "space_len s = (case find (\<lambda>r. prefix r s) space_runes of None \<Rightarrow> 0 | Some r \<Rightarrow> length r)"

definition space_len_end :: "string \<Rightarrow> nat" where
  "space_len_end s = (case find (\<lambda>r. suffix r s) space_runes of None \<Rightarrow> 0 | Some r \<Rightarrow> length r)"

lemma space_len_le: "space_len s \<le> length s"
  by (auto simp: space_len_def find_Some_iff prefix_def split: option.splits)

lemma space_len_end_le: "space_len_end s \<le> length s"
  by (auto simp: space_len_end_def find_Some_iff suffix_def split: option.splits)

function trimLeft :: "string \<Rightarrow> string" where
  "trimLeft s = (if space_len s = 0 then s else trimLeft (drop (space_len s) s))"
  by pat_completeness auto
termination
proof (relation "measure length")
  show "wf (measure length)" by simp
next
  fix s :: string
  assume "space_len s \<noteq> 0"
  moreover have "space_len s \<le> length s" by (rule space_len_le)
  ultimately show "(drop (space_len s) s, s) \<in> measure length" by simp
qed

function trimRight :: "string \<Rightarrow> string" where
  "trimRight s =
     (if space_len_end s = 0 then s else trimRight (take (length s - space_len_end s) s))"
  by pat_completeness auto
termination
proof (relation "measure length")
  show "wf (measure length)" by simp
next
  fix s :: string
  assume "space_len_end s \<noteq> 0"
  moreover have "space_len_end s \<le> length s" by (rule space_len_end_le)
  ultimately show "(take (length s - space_len_end s) s, s) \<in> measure length" by simp
qed

declare trimLeft.simps [simp del] trimRight.simps [simp del]

text \<open>\<^verbatim>\<open>strings.TrimSpace\<close>: all leading and trailing white space removed.\<close>

definition TrimSpace :: "string \<Rightarrow> string" where
  "TrimSpace s = trimRight (trimLeft s)"

text \<open>\<^verbatim>\<open>strings.Fields\<close>: the maximal runs of bytes between runs of white space. The
  first argument is the field being read, last byte first.\<close>

definition flush :: "string \<Rightarrow> string list" where
  "flush tok = (if tok = [] then [] else [rev tok])"

function fields_from :: "string \<Rightarrow> string \<Rightarrow> string list" where
  "fields_from tok s =
     (if s = [] then flush tok
      else if space_len s = 0 then fields_from (hd s # tok) (tl s)
      else flush tok @ fields_from [] (drop (space_len s) s))"
  by pat_completeness auto
termination
proof (relation "measure (\<lambda>(tok, s). length s)")
  show "wf (measure (\<lambda>(tok, s). length s))" by simp
next
  fix tok s :: string
  assume "s \<noteq> []"
  then show "((hd s # tok, tl s), (tok, s)) \<in> measure (\<lambda>(tok, s). length s)" by simp
next
  fix tok s :: string
  assume "s \<noteq> []" and "space_len s \<noteq> 0"
  moreover have "space_len s \<le> length s" by (rule space_len_le)
  ultimately show "(([], drop (space_len s) s), (tok, s)) \<in> measure (\<lambda>(tok, s). length s)"
    by simp
qed

declare fields_from.simps [simp del]

definition Fields :: "string \<Rightarrow> string list" where
  "Fields s = fields_from [] s"

subsection \<open>Errors\<close>

text \<open>Every error value the program can build or receive. \<open>ReadError\<close> stands for the
  error of \<^verbatim>\<open>os.Open\<close> or \<^verbatim>\<open>os.ReadFile\<close> on the named path, \<open>ErrSyntax\<close> and
  \<open>ErrRange\<close> for the two errors of \<^verbatim>\<open>strconv.ParseInt\<close>, \<open>ErrTooLong\<close> for the
  scanner's, and the others for the \<^verbatim>\<open>fmt.Errorf\<close> calls of the source.\<close>

datatype error =
    ReadError string
  | ErrSyntax
  | ErrRange
  | ErrTooLong
  | PathNotFound string
  | V1PeriodZero
  | V2PeriodZero
  | V2InvalidFormat string
  | V1PathFailed error
  | V2PathFailed error

subsection \<open>Parsing integers\<close>

definition is_digit :: "char \<Rightarrow> bool" where
  "is_digit c = (48 \<le> (of_char c :: int) \<and> (of_char c :: int) \<le> 57)"

definition digits_value :: "string \<Rightarrow> int" where
  "digits_value ds = foldl (\<lambda>n c. 10 * n + ((of_char c :: int) - 48)) 0 ds"

text \<open>\<^verbatim>\<open>strconv.ParseInt(s, 10, 64)\<close>: an optional sign, then one or more decimal digits
  (in base 10 an underscore is a syntax error); a value outside the range of
  \<^verbatim>\<open>int64\<close> is a range error. The \<^verbatim>\<open>int64\<close> is an \<^typ>\<open>int\<close> within
  \<open>- 2 ^ 63 \<le> n < 2 ^ 63\<close>; the program does no arithmetic on it.\<close>

definition ParseInt :: "string \<Rightarrow> error + int" where
  "ParseInt s =
     (if s = [] then Inl ErrSyntax
      else let neg = (hd s = CHR ''-'');
               body = (if hd s = CHR ''+'' \<or> hd s = CHR ''-'' then tl s else s)
           in if body = [] \<or> \<not> list_all is_digit body then Inl ErrSyntax
              else let un = digits_value body
                   in if \<not> neg \<and> 2 ^ 63 \<le> un then Inl ErrRange
                      else if neg \<and> 2 ^ 63 < un then Inl ErrRange
                      else Inr (if neg then - un else un))"


section \<open>Paths\<close>

text \<open>
  \<^verbatim>\<open>filepath.Clean\<close>, \<^verbatim>\<open>filepath.Dir\<close> and \<^verbatim>\<open>filepath.Join\<close> on Linux. A path is
  cut at its slashes into components; \<open>clean_step\<close> is one turn of the loop of
  \<^verbatim>\<open>Clean\<close> on the components kept so far, last one first: an empty component and
  a dot are dropped, two dots remove the last kept component (at the root they are dropped,
  in a relative path with nothing to remove they are kept), anything else is kept.
\<close>

definition rooted :: "string \<Rightarrow> bool" where
  "rooted p = (case p of [] \<Rightarrow> False | c # _ \<Rightarrow> c = CHR ''/'')"

fun join_slash :: "string list \<Rightarrow> string" where
  "join_slash [] = []"
| "join_slash [x] = x"
| "join_slash (x # y # zs) = x @ CHR ''/'' # join_slash (y # zs)"

fun clean_step :: "bool \<Rightarrow> string list \<Rightarrow> string \<Rightarrow> string list" where
  "clean_step rt st c =
     (if c = [] \<or> c = ''.'' then st
      else if c = ''..'' then
        (case st of
           [] \<Rightarrow> if rt then [] else [c]
         | t # ts \<Rightarrow> if t \<noteq> ''..'' then ts else if rt then st else c # st)
      else c # st)"

declare clean_step.simps [simp del]

definition Clean :: "string \<Rightarrow> string" where
  "Clean path =
     (if path = [] then ''.''
      else let rt = rooted path;
               st = foldl (clean_step rt) [] (splitOn CHR ''/'' path);
               out = (if rt then ''/'' else []) @ join_slash (rev st)
           in if out = [] then ''.'' else out)"

text \<open>\<^verbatim>\<open>Dir\<close> cleans the path up to and including its last slash.\<close>

definition dir_prefix :: "string \<Rightarrow> string" where
  "dir_prefix path = rev (dropWhile (\<lambda>c. c \<noteq> CHR ''/'') (rev path))"

definition Dir :: "string \<Rightarrow> string" where
  "Dir path = Clean (dir_prefix path)"

text \<open>\<^verbatim>\<open>Join\<close> of two elements: from the first non-empty element on, the elements are
  joined with a slash and cleaned.\<close>

definition Join :: "string \<Rightarrow> string \<Rightarrow> string" where
  "Join a b =
     (if a \<noteq> [] then Clean (a @ CHR ''/'' # b)
      else if b \<noteq> [] then Clean b
      else [])"

section \<open>Floating point\<close>

text \<open>
  A \<^verbatim>\<open>float64\<close> is its value: a rational, an infinity or a NaN. The two zeros are one
  value here; the program compares floats (\<^verbatim>\<open>==\<close>, \<^verbatim>\<open>math.Min\<close>,
  \<^verbatim>\<open>math.Max\<close>) and never divides by a float zero, so it cannot tell them apart.
  \<open>round_f64\<close> is IEEE 754 rounding to the nearest binary64, ties to even: 53 bits
  of precision, subnormals below \<open>2 powi (- 1022)\<close>, overflow to an infinity.
\<close>

datatype float64 = Fin rat | PInf | NInf | NaN

definition round_even :: "rat \<Rightarrow> int" where
  "round_even x =
     (let f = \<lfloor>x\<rfloor>; d = x - of_int f
      in if d < 1 / 2 then f
         else if 1 / 2 < d then f + 1
         else if even f then f else f + 1)"

text \<open>\<open>ilog2 x\<close> is the \<open>e\<close> with \<open>2 powi e \<le> \<bar>x\<bar> < 2 powi (e + 1)\<close>, for \<open>x \<noteq> 0\<close>.\<close>

definition ilog2 :: "rat \<Rightarrow> int" where
  "ilog2 x =
     (let (a, b) = quotient_of \<bar>x\<bar>; e = bitlen a - bitlen b
      in if 2 powi e \<le> \<bar>x\<bar> then e else e - 1)"

definition round_f64 :: "rat \<Rightarrow> float64" where
  "round_f64 x =
     (if x = 0 then Fin 0
      else let e = max (ilog2 x - 52) (- 1074);
               y = of_int (round_even (x / 2 powi e)) * 2 powi e
           in if 2 powi 1024 \<le> \<bar>y\<bar> then (if 0 < x then PInf else NInf) else Fin y)"

text \<open>The conversion \<^verbatim>\<open>float64(n)\<close> of an \<^verbatim>\<open>int64\<close>.\<close>

definition float64_of_int :: "int \<Rightarrow> float64" where
  "float64_of_int n = round_f64 (of_int n)"

text \<open>The quotient \<^verbatim>\<open>x / y\<close>. A zero divisor is the positive zero, the only zero a
  conversion from an integer gives.\<close>

fun f64_div :: "float64 \<Rightarrow> float64 \<Rightarrow> float64" where
  "f64_div (Fin a) (Fin b) =
     (if b = 0 then (if a = 0 then NaN else if 0 < a then PInf else NInf)
      else round_f64 (a / b))"
| "f64_div (Fin a) PInf = Fin 0"
| "f64_div (Fin a) NInf = Fin 0"
| "f64_div PInf (Fin b) = (if 0 \<le> b then PInf else NInf)"
| "f64_div NInf (Fin b) = (if 0 \<le> b then NInf else PInf)"
| "f64_div _ _ = NaN"

text \<open>The comparison \<^verbatim>\<open>x < y\<close>: false when either side is a NaN.\<close>

fun f64_less :: "float64 \<Rightarrow> float64 \<Rightarrow> bool" where
  "f64_less NaN _ = False"
| "f64_less _ NaN = False"
| "f64_less (Fin a) (Fin b) = (a < b)"
| "f64_less _ NInf = False"
| "f64_less NInf _ = True"
| "f64_less PInf _ = False"
| "f64_less _ PInf = True"

text \<open>\<^verbatim>\<open>math.Min\<close>, \<^verbatim>\<open>math.Max\<close> and \<^verbatim>\<open>math.Ceil\<close> with their special cases.\<close>

definition Min_f64 :: "float64 \<Rightarrow> float64 \<Rightarrow> float64" where
  "Min_f64 x y =
     (if x = NInf \<or> y = NInf then NInf
      else if x = NaN \<or> y = NaN then NaN
      else if f64_less x y then x else y)"

definition Max_f64 :: "float64 \<Rightarrow> float64 \<Rightarrow> float64" where
  "Max_f64 x y =
     (if x = PInf \<or> y = PInf then PInf
      else if x = NaN \<or> y = NaN then NaN
      else if f64_less y x then x else y)"

fun Ceil_f64 :: "float64 \<Rightarrow> float64" where
  "Ceil_f64 (Fin a) = Fin (of_int \<lceil>a\<rceil>)"
| "Ceil_f64 x = x"


section \<open>The system the program reads\<close>

text \<open>
  The program only reads: \<^verbatim>\<open>os.Stat\<close> tells whether a path exists and
  \<^verbatim>\<open>os.ReadFile\<close> (or \<^verbatim>\<open>os.Open\<close> followed by a scan) gives the bytes of a
  file or fails. Both are fields of the system state, which no function changes.
\<close>

record system =
  stat_ok :: "string \<Rightarrow> bool"
  file_data :: "string \<Rightarrow> string option"

definition cgroupV1CPUPath :: string where
  "cgroupV1CPUPath = ''/sys/fs/cgroup/cpu''"

definition cgroupV2Path :: string where
  "cgroupV2Path = ''/sys/fs/cgroup''"

definition cgroupV1UnlimitedQuota :: int where
  "cgroupV1UnlimitedQuota = - 1"

section \<open>The per-level quota calculations\<close>

definition readIntFromFile :: "system \<Rightarrow> string \<Rightarrow> error + int" where
  "readIntFromFile sys filePath =
     (case file_data sys filePath of
        None \<Rightarrow> Inl (ReadError filePath)
      | Some content \<Rightarrow> ParseInt (TrimSpace content))"

definition calculateV1CPUQuota :: "system \<Rightarrow> string \<Rightarrow> error + float64" where
  "calculateV1CPUQuota sys path =
     (let quotaFile = Join path ''cpu.cfs_quota_us'';
          periodFile = Join path ''cpu.cfs_period_us''
      in (case readIntFromFile sys quotaFile of
            Inl err \<Rightarrow> Inl err
          | Inr quota \<Rightarrow>
              (if quota = cgroupV1UnlimitedQuota then Inr PInf
               else (case readIntFromFile sys periodFile of
                       Inl err \<Rightarrow> Inl err
                     | Inr period \<Rightarrow>
                         (if period = 0 then Inl V1PeriodZero
                          else Inr (f64_div (float64_of_int quota) (float64_of_int period)))))))"

definition calculateV2CPUQuota :: "system \<Rightarrow> string \<Rightarrow> error + float64" where
  "calculateV2CPUQuota sys path =
     (let maxFile = Join path ''cpu.max''
      in (case file_data sys maxFile of
            None \<Rightarrow> Inl (ReadError maxFile)
          | Some content \<Rightarrow>
              (let parts = Fields content
               in (if length parts \<noteq> 2 then Inl (V2InvalidFormat content)
                   else if parts ! 0 = ''max'' then Inr PInf
                   else (case ParseInt (parts ! 0) of
                           Inl err \<Rightarrow> Inl err
                         | Inr quota \<Rightarrow>
                             (case ParseInt (parts ! 1) of
                                Inl err \<Rightarrow> Inl err
                              | Inr period \<Rightarrow>
                                  (if period = 0 then Inl V2PeriodZero
                                   else Inr (f64_div (float64_of_int quota)
                                               (float64_of_int period)))))))))"

section \<open>The hierarchy walk\<close>

text \<open>
  The loop of \<^verbatim>\<open>walkHierarchy\<close> with its two variables. It has no bound of its own:
  on a relative path \<^verbatim>\<open>filepath.Dir\<close> arrives at \<open>''.''\<close> and stays there. The
  value \<open>None\<close> is a walk that never returns.
\<close>

partial_function (option) walk_loop ::
  "(string \<Rightarrow> error + float64) \<Rightarrow> string \<Rightarrow> float64 \<Rightarrow> string \<Rightarrow> float64 option" where
  "walk_loop calcFunc rootPath minLimit currentPath =
     (let minLimit' = (case calcFunc currentPath of
                         Inl err \<Rightarrow> minLimit
                       | Inr limit \<Rightarrow> Min_f64 minLimit limit)
      in if currentPath = rootPath \<or> currentPath = ''/'' then Some minLimit'
         else walk_loop calcFunc rootPath minLimit' (Dir currentPath))"

declare walk_loop.simps [code]

definition walkHierarchy ::
  "string \<Rightarrow> (string \<Rightarrow> error + float64) \<Rightarrow> string \<Rightarrow> (error + float64) option" where
  "walkHierarchy startPath calcFunc rootPath =
     (case walk_loop calcFunc rootPath PInf startPath of
        None \<Rightarrow> None
      | Some minLimit \<Rightarrow> if minLimit = PInf then Some (Inr (Fin 0)) else Some (Inr minLimit))"

section \<open>The path of the process's own cgroup\<close>

text \<open>
  \<^verbatim>\<open>bufio.Scanner\<close> with the default line splitter: the content is cut at line
  feeds, a last line without a line feed counts, an empty rest after the last line feed
  does not, and one trailing carriage return is dropped from each line. A line of
  65536 bytes or more does not fit the scanner's buffer: the scan stops there and
  \<^verbatim>\<open>scanner.Err()\<close> is \<^verbatim>\<open>bufio.ErrTooLong\<close>.
\<close>

definition raw_lines :: "string \<Rightarrow> string list" where
  "raw_lines content =
     (let ls = splitOn CHR 0x0A content in if last ls = [] then butlast ls else ls)"

definition dropCR :: "string \<Rightarrow> string" where
  "dropCR l = (if l \<noteq> [] \<and> last l = CHR 0x0D then butlast l else l)"

fun scan_cgroup :: "string \<Rightarrow> string list \<Rightarrow> error + string" where
  "scan_cgroup controller [] = Inl (PathNotFound controller)"
| "scan_cgroup controller (raw # rest) =
     (if 65536 \<le> int (length raw) then Inl ErrTooLong
      else let line = dropCR raw; parts = splitOn CHR '':'' line
           in if length parts \<noteq> 3 then scan_cgroup controller rest
              else if (controller \<noteq> [] \<and> Contains (parts ! 1) controller)
                        \<or> (controller = [] \<and> parts ! 1 = [])
                   then Inr (parts ! 2)
                   else scan_cgroup controller rest)"

definition getProcessCgroupPath :: "system \<Rightarrow> string \<Rightarrow> error + string" where
  "getProcessCgroupPath sys controller =
     (case file_data sys ''/proc/self/cgroup'' of
        None \<Rightarrow> Inl (ReadError ''/proc/self/cgroup'')
      | Some content \<Rightarrow> scan_cgroup controller (raw_lines content))"

section \<open>The resolver\<close>

definition getCgroupV1Limit :: "system \<Rightarrow> (error + float64) option" where
  "getCgroupV1Limit sys =
     (case getProcessCgroupPath sys ''cpu'' of
        Inl err \<Rightarrow> Some (Inl (V1PathFailed err))
      | Inr cgroupPath \<Rightarrow>
          walkHierarchy (Join cgroupV1CPUPath cgroupPath) (calculateV1CPUQuota sys)
            cgroupV1CPUPath)"

definition getCgroupV2Limit :: "system \<Rightarrow> (error + float64) option" where
  "getCgroupV2Limit sys =
     (case getProcessCgroupPath sys [] of
        Inl err \<Rightarrow> Some (Inl (V2PathFailed err))
      | Inr cgroupPath \<Rightarrow>
          walkHierarchy (Join cgroupV2Path cgroupPath) (calculateV2CPUQuota sys) cgroupV2Path)"

definition getEffectiveCPULimit :: "system \<Rightarrow> (error + float64) option" where
  "getEffectiveCPULimit sys =
     (if stat_ok sys (Join cgroupV2Path ''cgroup.controllers'') then getCgroupV2Limit sys
      else if stat_ok sys cgroupV1CPUPath then getCgroupV1Limit sys
      else Some (Inr (Fin 0)))"

text \<open>The three results of \<^verbatim>\<open>cgroupLimit\<close>: the effective limit, the adjusted limit and
  the error, \<open>None\<close> for \<^verbatim>\<open>nil\<close>.\<close>

definition cgroupLimit :: "system \<Rightarrow> (float64 \<times> float64 \<times> error option) option" where
  "cgroupLimit sys =
     (case getEffectiveCPULimit sys of
        None \<Rightarrow> None
      | Some (Inl err) \<Rightarrow> Some (Fin 0, Fin 0, Some err)
      | Some (Inr effectiveLimit) \<Rightarrow>
          (if effectiveLimit = Fin 0 then Some (Fin 0, Fin 0, None)
           else (let adjustedLimit = Max_f64 (Fin 2) (Ceil_f64 effectiveLimit)
                 in Some (effectiveLimit, adjustedLimit, None))))"


section \<open>The directories of a walk\<close>

text \<open>
  From a rooted path every \<^verbatim>\<open>Dir\<close> is a shorter rooted path, down to the root
  \<open>''/''\<close>. The size of a list of components counts one separator for each of them.
\<close>

definition comp_size :: "string list \<Rightarrow> nat" where
  "comp_size cs = sum_list (map (\<lambda>c. Suc (length c)) cs)"

definition comp_weight :: "string list \<Rightarrow> nat" where
  "comp_weight cs = sum_list (map (\<lambda>c. if c = [] then 0 else Suc (length c)) cs)"

lemma splitOn_not_Nil [simp]: "splitOn s q \<noteq> []"
  by (induction q) (auto simp: Let_def)

lemma comp_size_simps [simp]:
  "comp_size [] = 0" "comp_size (c # cs) = Suc (length c) + comp_size cs"
  by (simp_all add: comp_size_def)

lemma comp_weight_simps [simp]:
  "comp_weight [] = 0"
  "comp_weight (c # cs) = (if c = [] then 0 else Suc (length c)) + comp_weight cs"
  by (simp_all add: comp_weight_def)

lemma comp_size_append [simp]: "comp_size (xs @ ys) = comp_size xs + comp_size ys"
  by (simp add: comp_size_def)

lemma comp_weight_append [simp]: "comp_weight (xs @ ys) = comp_weight xs + comp_weight ys"
  by (simp add: comp_weight_def)

lemma comp_size_rev [simp]: "comp_size (rev xs) = comp_size xs"
  by (induction xs) auto

lemma comp_weight_le_size: "comp_weight cs \<le> comp_size cs"
  by (induction cs) auto

lemma comp_size_splitOn: "comp_size (splitOn s q) = Suc (length q)"
proof (induction q)
  case Nil
  show ?case by simp
next
  case (Cons c q)
  obtain w ws where r: "splitOn s q = w # ws"
    by (cases "splitOn s q") auto
  with Cons show ?case by (auto simp: Let_def)
qed

lemma splitOn_snoc_sep: "splitOn s (xs @ [s]) = splitOn s xs @ [[]]"
proof (induction xs)
  case Nil
  show ?case by simp
next
  case (Cons c xs)
  obtain w ws where r: "splitOn s xs = w # ws"
    by (cases "splitOn s xs") auto
  with Cons show ?case by (auto simp: Let_def)
qed

lemma clean_step_size: "comp_size (clean_step rt st c) \<le> comp_size st + comp_weight [c]"
  by (auto simp: clean_step.simps split: list.splits)

lemma foldl_clean_step_size:
  "comp_size (foldl (clean_step rt) st cs) \<le> comp_size st + comp_weight cs"
proof (induction cs arbitrary: st)
  case Nil
  show ?case by simp
next
  case (Cons c cs)
  have "comp_size (foldl (clean_step rt) (clean_step rt st c) cs)
          \<le> comp_size (clean_step rt st c) + comp_weight cs"
    by (rule Cons.IH)
  also have "\<dots> \<le> comp_size st + comp_weight [c] + comp_weight cs"
    using clean_step_size [of rt st c] by simp
  finally show ?case by simp
qed

lemma length_join_slash: "length (join_slash xs) = comp_size xs - 1"
  by (induction xs rule: join_slash.induct) auto

lemma rooted_Cons: "rooted p \<longleftrightarrow> (\<exists>q. p = CHR ''/'' # q)"
  by (cases p) (auto simp: rooted_def)

lemma Clean_rooted: "rooted q \<Longrightarrow> rooted (Clean q)"
  by (auto simp: Clean_def rooted_Cons Let_def)

lemma length_Clean_rooted:
  assumes "rooted q"
  shows "length (Clean q) \<le> max 1 (comp_weight (splitOn CHR ''/'' q))"
proof -
  let ?st = "foldl (clean_step True) [] (splitOn CHR ''/'' q)"
  from assms have ne: "q \<noteq> []" by (auto simp: rooted_Cons)
  have "Clean q = CHR ''/'' # join_slash (rev ?st)"
    using assms ne by (simp add: Clean_def Let_def)
  then have "length (Clean q) = Suc (comp_size ?st - 1)"
    by (simp add: length_join_slash)
  moreover have "comp_size ?st \<le> comp_weight (splitOn CHR ''/'' q)"
    using foldl_clean_step_size [of True "[]" "splitOn CHR ''/'' q"] by simp
  ultimately show ?thesis by linarith
qed

lemma dir_prefix_rooted:
  assumes "rooted p"
  shows "\<exists>xs. dir_prefix p = CHR ''/'' # xs \<and> (xs = [] \<or> last xs = CHR ''/'')
          \<and> length xs < length p"
proof -
  from assms obtain q where p: "p = CHR ''/'' # q" by (auto simp: rooted_Cons)
  have "dir_prefix p = CHR ''/'' # rev (dropWhile (\<lambda>c. c \<noteq> CHR ''/'') (rev q))"
    unfolding p dir_prefix_def by (simp add: dropWhile_append)
  moreover have "length (rev (dropWhile (\<lambda>c. c \<noteq> CHR ''/'') (rev q))) < length p"
    unfolding p using length_dropWhile_le [of "\<lambda>c. c \<noteq> CHR ''/''" "rev q"] by simp
  moreover have "rev (dropWhile (\<lambda>c. c \<noteq> CHR ''/'') (rev q)) = [] \<or>
      last (rev (dropWhile (\<lambda>c. c \<noteq> CHR ''/'') (rev q))) = CHR ''/''"
    using hd_dropWhile [of "\<lambda>c. c \<noteq> CHR ''/''" "rev q"] by (auto simp: last_rev)
  ultimately show ?thesis by blast
qed

lemma Dir_rooted:
  assumes "rooted p"
  shows "rooted (Dir p)"
proof -
  from dir_prefix_rooted [OF assms] have "rooted (dir_prefix p)"
    by (auto simp: rooted_def)
  then show ?thesis unfolding Dir_def by (rule Clean_rooted)
qed

lemma Dir_shorter:
  assumes "rooted p" and "p \<noteq> ''/''"
  shows "length (Dir p) < length p"
proof -
  from dir_prefix_rooted [OF assms(1)] obtain xs where
    dp: "dir_prefix p = CHR ''/'' # xs" and
    xs: "xs = [] \<or> last xs = CHR ''/''" and len: "length xs < length p"
    by blast
  from assms have p2: "2 \<le> length p"
    by (cases p; cases "tl p") (auto simp: rooted_def)
  have r: "rooted (dir_prefix p)" by (simp add: dp rooted_def)
  show ?thesis
  proof (cases "xs = []")
    case True
    then have "Dir p = ''/''"
      by (simp add: Dir_def dp Clean_def rooted_def clean_step.simps)
    with p2 show ?thesis by simp
  next
    case False
    with xs obtain ys where ys: "xs = ys @ [CHR ''/'']"
      by (metis append_butlast_last_id)
    have "splitOn CHR ''/'' (dir_prefix p) = [] # splitOn CHR ''/'' ys @ [[]]"
      by (simp add: dp ys splitOn_snoc_sep)
    then have "comp_weight (splitOn CHR ''/'' (dir_prefix p))
                 = comp_weight (splitOn CHR ''/'' ys)"
      by simp
    also have "\<dots> \<le> Suc (length ys)"
      using comp_weight_le_size [of "splitOn CHR ''/'' ys"] by (simp add: comp_size_splitOn)
    finally have "comp_weight (splitOn CHR ''/'' (dir_prefix p)) \<le> length xs"
      by (simp add: ys)
    with length_Clean_rooted [OF r] len p2 show ?thesis
      by (simp add: Dir_def)
  qed
qed

text \<open>The directories a walk from a rooted path visits, in order: the walk stops at the
  mount root or at \<open>''/''\<close>. (On a path that is not rooted the list is cut after one
  element; the walk itself is \<open>walk_loop\<close>.)\<close>

function levels :: "string \<Rightarrow> string \<Rightarrow> string list" where
  "levels rootPath p =
     (if p = rootPath \<or> p = ''/'' \<or> \<not> rooted p then [p]
      else p # levels rootPath (Dir p))"
  by pat_completeness auto
termination
proof (relation "measure (\<lambda>(rootPath, p). length p)")
  show "wf (measure (\<lambda>(rootPath, p). length p))" by simp
next
  fix rootPath p :: string
  assume "\<not> (p = rootPath \<or> p = ''/'' \<or> \<not> rooted p)"
  then have "length (Dir p) < length p" by (simp add: Dir_shorter)
  then show "((rootPath, Dir p), (rootPath, p)) \<in> measure (\<lambda>(rootPath, p). length p)"
    by simp
qed

declare levels.simps [simp del]

text \<open>One turn of the loop on the running minimum, and the samples of the levels where
  the calculation succeeds.\<close>

definition fold_level :: "(string \<Rightarrow> error + float64) \<Rightarrow> float64 \<Rightarrow> string \<Rightarrow> float64" where
  "fold_level calcFunc minLimit p =
     (case calcFunc p of Inl err \<Rightarrow> minLimit | Inr limit \<Rightarrow> Min_f64 minLimit limit)"

definition samples :: "(string \<Rightarrow> error + float64) \<Rightarrow> string list \<Rightarrow> float64 list" where
  "samples calcFunc ps =
     concat (map (\<lambda>p. case calcFunc p of Inl err \<Rightarrow> [] | Inr limit \<Rightarrow> [limit]) ps)"

text \<open>The order of the floats (\<^verbatim>\<open><=\<close>, false on a NaN) and the least element of a
  list in it.\<close>

definition f64_le :: "float64 \<Rightarrow> float64 \<Rightarrow> bool" where
  "f64_le x y = (x \<noteq> NaN \<and> y \<noteq> NaN \<and> (x = y \<or> f64_less x y))"

definition is_least :: "float64 list \<Rightarrow> float64 \<Rightarrow> bool" where
  "is_least xs r = (r \<in> set xs \<and> (\<forall>x\<in>set xs. f64_le r x))"

text \<open>The values a quota calculation can return: a finite number or the positive
  infinity.\<close>

definition ordinary :: "float64 \<Rightarrow> bool" where
  "ordinary x = (x = PInf \<or> (\<exists>q. x = Fin q))"


section \<open>Rounding\<close>

text \<open>\<open>ilog2\<close> is the binary exponent; a value with at most 53 significant bits in the
  exponent range is its own rounding.\<close>

lemma ilog2_bounds:
  assumes "x \<noteq> 0"
  shows "2 powi (ilog2 x) \<le> \<bar>x\<bar>" and "\<bar>x\<bar> < 2 powi (ilog2 x + 1)"
proof -
  obtain a b where q: "quotient_of \<bar>x\<bar> = (a, b)" by (cases "quotient_of \<bar>x\<bar>")
  then have b: "0 < b" by (rule quotient_of_denom_pos)
  from q have x: "\<bar>x\<bar> = of_int a / of_int b" by (rule quotient_of_div)
  from assms have "0 < \<bar>x\<bar>" by simp
  with x b have a: "0 < a" by (simp add: zero_less_divide_iff)
  define n where "n = bitlen a"
  define d where "d = bitlen b"
  have n1: "1 \<le> n" and d1: "1 \<le> d"
    using a b by (auto simp: n_def d_def bitlen_alt_def)
  have "2 ^ nat (n - 1) \<le> a" and "a < 2 ^ nat n"
    using bitlen_bounds [OF a] by (auto simp: n_def)
  then have a_lo: "(2::rat) powi (n - 1) \<le> of_int a" and a_hi: "of_int a < (2::rat) powi n"
    using n1 by (simp_all add: power_int_nonneg_exp)
  have "2 ^ nat (d - 1) \<le> b" and "b < 2 ^ nat d"
    using bitlen_bounds [OF b] by (auto simp: d_def)
  then have b_lo: "(2::rat) powi (d - 1) \<le> of_int b" and b_hi: "of_int b < (2::rat) powi d"
    using d1 by (simp_all add: power_int_nonneg_exp)
  have "(2::rat) powi (n - 1) / 2 powi d < of_int a / of_int b"
    using a_lo b b_hi by (intro frac_less2) simp_all
  moreover have "(2::rat) powi (n - 1 - d) = 2 powi (n - 1) / 2 powi d"
    by (rule power_int_diff) simp
  moreover have "n - 1 - d = n - d - 1" by simp
  ultimately have lo: "(2::rat) powi (n - d - 1) < \<bar>x\<bar>"
    by (simp only: x)
  have "of_int a / of_int b < (2::rat) powi n / 2 powi (d - 1)"
    using a a_hi b_lo by (intro frac_less) simp_all
  moreover have "(2::rat) powi (n - (d - 1)) = 2 powi n / 2 powi (d - 1)"
    by (rule power_int_diff) simp
  moreover have "n - (d - 1) = n - d + 1" by simp
  ultimately have hi: "\<bar>x\<bar> < (2::rat) powi (n - d + 1)"
    by (simp only: x)
  have il: "ilog2 x = (if 2 powi (n - d) \<le> \<bar>x\<bar> then n - d else n - d - 1)"
    by (simp add: ilog2_def q n_def d_def Let_def)
  show "2 powi (ilog2 x) \<le> \<bar>x\<bar>"
    using lo by (simp add: il)
  show "\<bar>x\<bar> < 2 powi (ilog2 x + 1)"
    using hi by (simp add: il not_le)
qed

lemma pow2_less_cancel:
  assumes "(2::rat) powi m < 2 powi n"
  shows "m < n"
proof (rule ccontr)
  assume "\<not> m < n"
  then have "n \<le> m" by simp
  then have "(2::rat) powi n \<le> 2 powi m" by (rule power_int_increasing) simp
  with assms show False by simp
qed

lemma ilog2_unique:
  assumes "2 powi e \<le> \<bar>x\<bar>" and "\<bar>x\<bar> < 2 powi (e + 1)"
  shows "ilog2 x = e"
proof -
  have nz: "x \<noteq> 0"
  proof
    assume "x = 0"
    with assms(1) have "(2::rat) powi e \<le> 0" by simp
    moreover have "0 < (2::rat) powi e" by (rule zero_less_power_int) simp
    ultimately show False by linarith
  qed
  have "(2::rat) powi e < 2 powi (ilog2 x + 1)"
    using assms(1) ilog2_bounds(2) [OF nz] by (rule le_less_trans)
  then have "e < ilog2 x + 1"
    by (rule pow2_less_cancel)
  moreover have "(2::rat) powi (ilog2 x) < 2 powi (e + 1)"
    using ilog2_bounds(1) [OF nz] assms(2) by (rule le_less_trans)
  then have "ilog2 x < e + 1"
    by (rule pow2_less_cancel)
  ultimately show ?thesis by simp
qed

lemma round_even_of_int [simp]: "round_even (of_int n) = n"
  by (simp add: round_even_def)

lemma round_even_error: "\<bar>of_int (round_even x) - x\<bar> \<le> 1 / 2"
proof -
  have "of_int \<lfloor>x\<rfloor> \<le> x" and "x < of_int \<lfloor>x\<rfloor> + 1"
    by linarith+
  then show ?thesis
    by (auto simp: round_even_def Let_def abs_le_iff)
qed

lemma round_even_eqI:
  assumes "\<bar>x - of_int m\<bar> < 1 / 2"
  shows "round_even x = m"
proof (cases "of_int m \<le> x")
  case True
  with assms have "\<lfloor>x\<rfloor> = m" by (intro floor_unique) (auto simp: abs_less_iff)
  with assms True show ?thesis by (simp add: round_even_def Let_def abs_less_iff)
next
  case False
  with assms have "\<lfloor>x\<rfloor> = m - 1" by (intro floor_unique) (auto simp: abs_less_iff)
  with assms False show ?thesis by (simp add: round_even_def Let_def abs_less_iff)
qed

lemma round_f64_eqI:
  assumes "2 powi e \<le> \<bar>x\<bar>" and "\<bar>x\<bar> < 2 powi (e + 1)"
    and "k = max (e - 52) (- 1074)"
    and "\<bar>x / 2 powi k - of_int m\<bar> < 1 / 2"
    and "\<bar>of_int m * 2 powi k\<bar> < (2::rat) powi 1024"
  shows "round_f64 x = Fin (of_int m * 2 powi k)"
proof -
  have nz: "x \<noteq> 0"
  proof
    assume "x = 0"
    with assms(1) have "(2::rat) powi e \<le> 0" by simp
    moreover have "0 < (2::rat) powi e" by (rule zero_less_power_int) simp
    ultimately show False by linarith
  qed
  have "round_even (x / 2 powi k) = m" using assms(4) by (rule round_even_eqI)
  moreover have "ilog2 x = e" using assms(1,2) by (rule ilog2_unique)
  ultimately show ?thesis
    using nz assms(3,5)
    by (simp add: round_f64_def Let_def not_le [symmetric] del: power_int_numeral)
qed

lemma round_f64_exact:
  assumes m: "\<bar>m\<bar> < 2 ^ 53" and k: "- 1074 \<le> k"
    and fin: "\<bar>of_int m * 2 powi k\<bar> < (2::rat) powi 1024"
  shows "round_f64 (of_int m * 2 powi k) = Fin (of_int m * 2 powi k)"
proof (cases "m = 0")
  case True
  then show ?thesis by (simp add: round_f64_def)
next
  case False
  define x :: rat where "x = of_int m * 2 powi k"
  define j where "j = max (ilog2 x - 52) (- 1074)"
  have nz: "x \<noteq> 0" using False by (simp add: x_def)
  have "\<bar>x\<bar> = of_int \<bar>m\<bar> * 2 powi k"
    by (simp add: x_def abs_mult)
  also have "\<dots> < 2 ^ 53 * 2 powi k"
    using m by (intro mult_strict_right_mono) (simp_all add: of_int_less_numeral_power_cancel_iff)
  also have "\<dots> = 2 powi (53 + k)"
    by (simp add: power_int_add)
  finally have "\<bar>x\<bar> < 2 powi (53 + k)" .
  with ilog2_bounds(1) [OF nz] have "(2::rat) powi (ilog2 x) < 2 powi (53 + k)"
    by (rule le_less_trans)
  then have "ilog2 x < 53 + k" by (rule pow2_less_cancel)
  with k have jk: "j \<le> k" by (simp add: j_def)
  have "x / 2 powi j = of_int m * 2 powi (k - j)"
    by (simp add: x_def power_int_diff)
  also have "\<dots> = of_int (m * 2 ^ nat (k - j))"
    using jk by (simp add: power_int_nonneg_exp)
  finally have "round_even (x / 2 powi j) = m * 2 ^ nat (k - j)"
    by (simp only: round_even_of_int)
  moreover have "of_int (m * 2 ^ nat (k - j)) * (2::rat) powi j = x"
  proof -
    have "of_int (m * 2 ^ nat (k - j)) * (2::rat) powi j = of_int m * (2 powi (k - j) * 2 powi j)"
      using jk by (simp add: power_int_nonneg_exp)
    also have "(2::rat) powi (k - j) * 2 powi j = 2 powi k"
      by (simp flip: power_int_add)
    finally show ?thesis by (simp add: x_def)
  qed
  ultimately have "round_f64 x = Fin x"
    using nz fin by (simp add: round_f64_def Let_def j_def [symmetric] x_def [symmetric] not_le [symmetric] del: power_int_numeral)
  then show ?thesis by (simp only: x_def)
qed

lemma round_f64_of_int:
  assumes "\<bar>n\<bar> < 2 ^ 53"
  shows "round_f64 (of_int n) = Fin (of_int n)"
proof -
  have "\<bar>of_int n :: rat\<bar> < 2 ^ 53"
    using assms by (simp flip: of_int_abs add: of_int_less_numeral_power_cancel_iff)
  also have "(2::rat) ^ 53 < 2 ^ 1024" by simp
  finally have "\<bar>of_int n * 2 powi 0\<bar> < (2::rat) powi 1024" by simp
  with round_f64_exact [of n 0] assms show ?thesis by simp
qed


lemma float64_of_int_small:
  "\<bar>n\<bar> < 2 ^ 53 \<Longrightarrow> float64_of_int n = Fin (of_int n)"
  by (simp add: float64_of_int_def round_f64_of_int)

lemma f64_div_small:
  assumes "\<bar>a\<bar> < 2 ^ 53" and "\<bar>b\<bar> < 2 ^ 53" and "b \<noteq> 0"
  shows "f64_div (float64_of_int a) (float64_of_int b) = round_f64 (of_int a / of_int b)"
  using assms by (simp add: float64_of_int_small)

lemma f64_div_dvd:
  assumes "\<bar>a\<bar> < 2 ^ 53" and "\<bar>b\<bar> < 2 ^ 53" and "b \<noteq> 0" and "b dvd a"
  shows "f64_div (float64_of_int a) (float64_of_int b) = Fin (of_int (a div b))"
proof -
  from assms(3,4) have q: "(of_int a :: rat) / of_int b = of_int (a div b)"
    by (simp add: of_int_div)
  have "\<bar>a div b\<bar> \<le> \<bar>a\<bar>"
    using assms(3,4) by (metis dvd_imp_le_int abs_ge_zero abs_zero div_0 dvd_div_mult_self
        dvd_triv_left)
  with assms(1) have "\<bar>a div b\<bar> < 2 ^ 53" by simp
  then show ?thesis
    unfolding f64_div_small [OF assms(1,2,3)] q by (rule round_f64_of_int)
qed

text \<open>In the exponent range of the normal numbers the rounding error is at most
  \<open>2 powi (- 53)\<close> of the value, and every \<^verbatim>\<open>int64\<close> is in that range.\<close>

lemma round_f64_normal:
  assumes lo: "2 powi (- 1022) \<le> \<bar>x\<bar>" and hi: "\<bar>x\<bar> < 2 powi 1023"
  shows "\<exists>y. round_f64 x = Fin y \<and> \<bar>y - x\<bar> \<le> \<bar>x\<bar> * 2 powi (- 53)"
proof -
  have nz: "x \<noteq> 0"
  proof
    assume "x = 0"
    with lo have "(2::rat) powi (- 1022) \<le> 0" by simp
    moreover have "0 < (2::rat) powi (- 1022)" by (rule zero_less_power_int) simp
    ultimately show False by linarith
  qed
  define e where "e = ilog2 x"
  have e1: "2 powi e \<le> \<bar>x\<bar>" and e2: "\<bar>x\<bar> < 2 powi (e + 1)"
    using ilog2_bounds [OF nz] by (simp_all add: e_def)
  have "(2::rat) powi (- 1022) < 2 powi (e + 1)"
    using lo e2 by (rule le_less_trans)
  then have "- 1022 < e + 1" by (rule pow2_less_cancel)
  then have k: "max (e - 52) (- 1074) = e - 52" by simp
  define p :: rat where "p = 2 powi (e - 52)"
  define m where "m = round_even (x / p)"
  define y where "y = of_int m * p"
  have pk: "0 < p" unfolding p_def by (rule zero_less_power_int) simp
  have p2: "p / 2 = 2 powi e * 2 powi (- 53)"
  proof -
    have "(2::rat) powi (e - 52) = 2 powi (e + (- 53) + 1)" by simp
    also have "\<dots> = 2 powi (e + (- 53)) * 2" by (rule power_int_add_1) simp
    also have "(2::rat) powi (e + (- 53)) = 2 powi e * 2 powi (- 53)"
      by (rule power_int_add) simp
    finally show ?thesis by (simp add: p_def)
  qed
  have "y - x = (of_int m - x / p) * p"
    using pk by (simp add: y_def field_simps)
  then have "\<bar>y - x\<bar> = \<bar>of_int m - x / p\<bar> * p"
    using pk by (simp add: abs_mult)
  also have "\<dots> \<le> 1 / 2 * p"
    using round_even_error [of "x / p"] pk by (intro mult_right_mono) (simp_all add: m_def)
  also have "\<dots> = 2 powi e * 2 powi (- 53)" using p2 by simp
  also have "\<dots> \<le> \<bar>x\<bar> * 2 powi (- 53)"
    using e1 by (intro mult_right_mono) simp_all
  finally have err: "\<bar>y - x\<bar> \<le> \<bar>x\<bar> * 2 powi (- 53)" .
  have "(2::rat) powi (- 53) \<le> 1" by (simp add: power_int_minus field_simps)
  then have "\<bar>x\<bar> * 2 powi (- 53) \<le> \<bar>x\<bar> * 1"
    by (intro mult_left_mono) simp_all
  with err have "\<bar>y - x\<bar> \<le> \<bar>x\<bar> * 1" by (rule order_trans)
  then have "\<bar>y\<bar> \<le> 2 * \<bar>x\<bar>" by linarith
  also have "\<dots> < 2 * 2 powi 1023" using hi by simp
  also have "\<dots> = (2::rat) powi 1024" by simp
  finally have fin: "\<bar>y\<bar> < 2 powi 1024" .
  have "round_f64 x = Fin y"
    using nz fin
    by (simp add: round_f64_def Let_def e_def [symmetric] k p_def [symmetric] m_def [symmetric]
        y_def [symmetric] not_le [symmetric] del: power_int_numeral)
  with err show ?thesis by blast
qed

lemma float64_of_int_int64:
  assumes "\<bar>n\<bar> \<le> 2 ^ 63"
  shows "\<exists>y. float64_of_int n = Fin y \<and> \<bar>y - of_int n\<bar> \<le> \<bar>of_int n\<bar> * 2 powi (- 53)"
proof (cases "n = 0")
  case True
  then show ?thesis by (simp add: float64_of_int_def round_f64_def)
next
  case False
  then have "1 \<le> \<bar>n\<bar>" by simp
  then have "(1::rat) \<le> of_int \<bar>n\<bar>" by (simp only: of_int_1_le_iff)
  moreover have "(2::rat) powi (- 1022) \<le> 2 powi 0"
    by (rule power_int_increasing) simp_all
  ultimately have lo: "(2::rat) powi (- 1022) \<le> \<bar>of_int n\<bar>" by simp
  have "(of_int \<bar>n\<bar> :: rat) \<le> 2 ^ 63"
    using assms by (simp only: of_int_le_numeral_power_cancel_iff)
  moreover have "(2::rat) ^ 63 < 2 powi 1023" by simp
  ultimately have hi: "\<bar>of_int n :: rat\<bar> < 2 powi 1023" by simp
  from round_f64_normal [OF lo hi] show ?thesis by (simp add: float64_of_int_def)
qed

lemma float64_of_int_bounds:
  assumes "\<bar>n\<bar> \<le> 2 ^ 63" and "n \<noteq> 0"
  shows "\<exists>y. float64_of_int n = Fin y \<and> 1 / 2 \<le> \<bar>y\<bar> \<and> \<bar>y\<bar> \<le> 2 ^ 64"
proof -
  from float64_of_int_int64 [OF assms(1)] obtain y where
    y: "float64_of_int n = Fin y" and err: "\<bar>y - of_int n\<bar> \<le> \<bar>of_int n\<bar> * 2 powi (- 53)"
    by blast
  have "(2::rat) powi (- 53) \<le> 1 / 2" by (simp add: power_int_minus field_simps)
  then have "\<bar>of_int n :: rat\<bar> * 2 powi (- 53) \<le> \<bar>of_int n\<bar> * (1 / 2)"
    by (intro mult_left_mono) simp_all
  with err have e2: "\<bar>y - of_int n\<bar> \<le> \<bar>of_int n\<bar> * (1 / 2)" by (rule order_trans)
  from assms(2) have "1 \<le> \<bar>n\<bar>" by simp
  then have n1: "(1::rat) \<le> \<bar>of_int n\<bar>" by (simp flip: of_int_abs)
  have n2: "\<bar>of_int n :: rat\<bar> \<le> 2 ^ 63"
    using assms(1) by (simp flip: of_int_abs add: of_int_le_numeral_power_cancel_iff)
  from e2 n1 have "1 / 2 \<le> \<bar>y\<bar>" by linarith
  moreover have "\<bar>y\<bar> \<le> 2 ^ 64"
  proof -
    from e2 n2 have "\<bar>y\<bar> \<le> 2 * 2 ^ 63" by linarith
    then show ?thesis by simp
  qed
  ultimately show ?thesis using y by blast
qed

lemma sample_finite:
  assumes q: "\<bar>quota\<bar> \<le> 2 ^ 63" and p: "\<bar>period\<bar> \<le> 2 ^ 63" and nz: "period \<noteq> 0"
  shows "\<exists>y. f64_div (float64_of_int quota) (float64_of_int period) = Fin y"
proof -
  from float64_of_int_bounds [OF p nz] obtain b where
    b: "float64_of_int period = Fin b" and b_lo: "1 / 2 \<le> \<bar>b\<bar>" and b_hi: "\<bar>b\<bar> \<le> 2 ^ 64"
    by blast
  from b_lo have bnz: "b \<noteq> 0" by auto
  show ?thesis
  proof (cases "quota = 0")
    case True
    then show ?thesis using b bnz by (simp add: float64_of_int_def round_f64_def)
  next
    case False
    from float64_of_int_bounds [OF q False] obtain a where
      a: "float64_of_int quota = Fin a" and a_lo: "1 / 2 \<le> \<bar>a\<bar>" and a_hi: "\<bar>a\<bar> \<le> 2 ^ 64"
      by blast
    have B: "(1 / 2) / 2 ^ 64 \<le> \<bar>a\<bar> / \<bar>b\<bar>"
      using a_lo b_hi b_lo by (intro frac_le) simp_all
    have A: "(2::rat) powi (- 1022) \<le> (1 / 2) / 2 ^ 64"
    proof -
      have "(2::rat) powi (- 1022) \<le> 2 powi (- 65)" by (rule power_int_increasing) simp_all
      also have "(2::rat) powi (- 65) = (1 / 2) / 2 ^ 64" by (simp add: power_int_minus field_simps)
      finally show ?thesis .
    qed
    from A B have "(2::rat) powi (- 1022) \<le> \<bar>a\<bar> / \<bar>b\<bar>" by (rule order_trans)
    then have lo: "(2::rat) powi (- 1022) \<le> \<bar>a / b\<bar>" by (simp only: abs_divide)
    have C: "\<bar>a\<bar> / \<bar>b\<bar> \<le> 2 ^ 64 / (1 / 2)"
      using a_hi b_lo by (intro frac_le) simp_all
    have D: "(2::rat) ^ 64 / (1 / 2) < 2 powi 1023" by simp
    from C D have "\<bar>a\<bar> / \<bar>b\<bar> < 2 powi 1023" by (rule le_less_trans)
    then have hi: "\<bar>a / b\<bar> < 2 powi 1023" by (simp only: abs_divide)
    from round_f64_normal [OF lo hi] show ?thesis using a b bnz by auto
  qed
qed

section \<open>What the quota calculations return\<close>

lemma digits_value_nonneg_aux:
  "0 \<le> n \<Longrightarrow> list_all is_digit ds \<Longrightarrow>
   0 \<le> foldl (\<lambda>n c. 10 * n + ((of_char c :: int) - 48)) n ds"
  by (induction ds arbitrary: n) (auto simp: is_digit_def)

lemma digits_value_nonneg: "list_all is_digit ds \<Longrightarrow> 0 \<le> digits_value ds"
  unfolding digits_value_def by (rule digits_value_nonneg_aux) simp_all

lemma ParseInt_range:
  assumes "ParseInt s = Inr n"
  shows "- (2 ^ 63) \<le> n \<and> n < 2 ^ 63"
  using assms digits_value_nonneg [of "if hd s = CHR ''+'' \<or> hd s = CHR ''-'' then tl s else s"]
  by (auto simp: ParseInt_def Let_def split: if_splits)

lemma calculateV1CPUQuota_ordinary:
  assumes "calculateV1CPUQuota sys path = Inr x"
  shows "ordinary x"
proof -
  have "ordinary (f64_div (float64_of_int quota) (float64_of_int period))"
    if "readIntFromFile sys f = Inr quota" and "readIntFromFile sys g = Inr period"
      and "period \<noteq> 0" for f g quota period
  proof -
    from that(1) have "\<bar>quota\<bar> \<le> 2 ^ 63"
      using ParseInt_range by (fastforce simp: readIntFromFile_def split: option.splits)
    moreover from that(2) have "\<bar>period\<bar> \<le> 2 ^ 63"
      using ParseInt_range by (fastforce simp: readIntFromFile_def split: option.splits)
    ultimately show ?thesis
      using sample_finite [of quota period] that(3) by (auto simp: ordinary_def)
  qed
  with assms show ?thesis
    by (auto simp: calculateV1CPUQuota_def Let_def ordinary_def split: sum.splits if_splits)
qed

lemma calculateV2CPUQuota_ordinary:
  assumes "calculateV2CPUQuota sys path = Inr x"
  shows "ordinary x"
proof -
  have "ordinary (f64_div (float64_of_int quota) (float64_of_int period))"
    if "ParseInt f = Inr quota" and "ParseInt g = Inr period"
      and "period \<noteq> 0" for f g quota period
  proof -
    from that(1) have "\<bar>quota\<bar> \<le> 2 ^ 63"
      using ParseInt_range [of f quota] by (simp add: abs_le_iff)
    moreover from that(2) have "\<bar>period\<bar> \<le> 2 ^ 63"
      using ParseInt_range [of g period] by (simp add: abs_le_iff)
    ultimately show ?thesis
      using sample_finite [of quota period] that(3) by (auto simp: ordinary_def)
  qed
  with assms show ?thesis
    by (auto simp: calculateV2CPUQuota_def Let_def ordinary_def
        split: sum.splits if_splits option.splits)
qed

lemma f64_le_refl: "x \<noteq> NaN \<Longrightarrow> f64_le x x"
  by (simp add: f64_le_def)

lemma Min_f64_least:
  assumes "x \<noteq> NaN" and "y \<noteq> NaN"
  shows "Min_f64 x y \<noteq> NaN" and "Min_f64 x y = x \<or> Min_f64 x y = y"
    and "f64_le (Min_f64 x y) x" and "f64_le (Min_f64 x y) y"
  using assms by (cases x; cases y; auto simp: Min_f64_def f64_le_def)+

lemma f64_le_trans: "f64_le x y \<Longrightarrow> f64_le y z \<Longrightarrow> f64_le x z"
  by (cases x; cases y; cases z) (auto simp: f64_le_def)

lemma foldl_Min_f64_least:
  assumes "m \<noteq> NaN" and "NaN \<notin> set xs"
  shows "is_least (m # xs) (foldl Min_f64 m xs)"
  using assms
proof (induction xs arbitrary: m)
  case Nil
  then show ?case by (simp add: is_least_def f64_le_def)
next
  case (Cons x xs)
  then have x: "x \<noteq> NaN" and xs: "NaN \<notin> set xs" by auto
  note M = Min_f64_least [OF Cons.prems(1) x]
  from Cons.IH [OF M(1) xs] have IH: "is_least (Min_f64 m x # xs) (foldl Min_f64 (Min_f64 m x) xs)" .
  let ?r = "foldl Min_f64 (Min_f64 m x) xs"
  from IH have r1: "?r = Min_f64 m x \<or> ?r \<in> set xs" and r2: "f64_le ?r (Min_f64 m x)"
    and r3: "\<forall>z\<in>set xs. f64_le ?r z"
    by (auto simp: is_least_def)
  from r2 M(3) have "f64_le ?r m" by (rule f64_le_trans)
  moreover from r2 M(4) have "f64_le ?r x" by (rule f64_le_trans)
  moreover from r1 M(2) have "?r \<in> set (m # x # xs)" by auto
  ultimately show ?case using r3 by (simp add: is_least_def)
qed

section \<open>The walk is a fold over its directories\<close>

lemma walk_loop_levels:
  "rooted p \<Longrightarrow>
   walk_loop calcFunc rootPath m p = Some (foldl (fold_level calcFunc) m (levels rootPath p))"
proof (induction rootPath p arbitrary: m rule: levels.induct)
  case (1 rootPath p)
  show ?case
  proof (cases "p = rootPath \<or> p = ''/''")
    case True
    then have "levels rootPath p = [p]" by (subst levels.simps) auto
    moreover have "walk_loop calcFunc rootPath m p = Some (fold_level calcFunc m p)"
      using True by (subst walk_loop.simps) (auto simp: fold_level_def Let_def)
    ultimately show ?thesis by simp
  next
    case False
    with "1.prems" have lv: "levels rootPath p = p # levels rootPath (Dir p)"
      by (subst levels.simps) simp
    have "walk_loop calcFunc rootPath m p
            = walk_loop calcFunc rootPath (fold_level calcFunc m p) (Dir p)"
      using False by (subst walk_loop.simps) (auto simp: fold_level_def Let_def)
    also have "\<dots> = Some (foldl (fold_level calcFunc) (fold_level calcFunc m p)
                          (levels rootPath (Dir p)))"
      using False "1.prems" by (intro "1.IH") (simp_all add: Dir_rooted)
    finally show ?thesis by (simp add: lv)
  qed
qed

lemma foldl_fold_level:
  "foldl (fold_level calcFunc) m ps = foldl Min_f64 m (samples calcFunc ps)"
  by (induction ps arbitrary: m) (auto simp: samples_def fold_level_def split: sum.splits)

lemma walkHierarchy_levels:
  assumes "rooted p"
  shows "walkHierarchy p calcFunc rootPath =
           Some (Inr (let m = foldl Min_f64 PInf (samples calcFunc (levels rootPath p))
                      in if m = PInf then Fin 0 else m))"
  by (simp add: walkHierarchy_def walk_loop_levels [OF assms] foldl_fold_level Let_def)


section \<open>The result of a walk\<close>

text \<open>A walk from a rooted path ends at the mount root or at \<open>''/''\<close>, each of its
  directories is the \<^verbatim>\<open>Dir\<close> of the one before, and its result is the least sample
  unless that is the positive infinity.\<close>

lemma Join_rooted:
  assumes "rooted a"
  shows "rooted (Join a b)"
proof -
  from assms have "a \<noteq> []" and "rooted (a @ CHR ''/'' # b)"
    by (auto simp: rooted_Cons)
  then show ?thesis by (simp add: Join_def Clean_rooted)
qed

lemma levels_last:
  "rooted p \<Longrightarrow> last (levels rootPath p) = rootPath \<or> last (levels rootPath p) = ''/''"
proof (induction rootPath p rule: levels.induct)
  case (1 rootPath p)
  show ?case
  proof (cases "p = rootPath \<or> p = ''/''")
    case True
    then show ?thesis by (subst (1 2) levels.simps) auto
  next
    case False
    with "1.prems" have lv: "levels rootPath p = p # levels rootPath (Dir p)"
      by (subst levels.simps) simp
    have ne: "levels rootPath (Dir p) \<noteq> []" by (subst levels.simps) simp
    from False "1.prems" have "last (levels rootPath (Dir p)) = rootPath
        \<or> last (levels rootPath (Dir p)) = ''/''"
      by (intro "1.IH") (simp_all add: Dir_rooted)
    then show ?thesis by (simp add: lv ne)
  qed
qed

lemma levels_step:
  "Suc i < length (levels rootPath p) \<Longrightarrow>
   levels rootPath p ! Suc i = Dir (levels rootPath p ! i)
   \<and> levels rootPath p ! i \<noteq> rootPath \<and> levels rootPath p ! i \<noteq> ''/''"
proof (induction rootPath p arbitrary: i rule: levels.induct)
  case (1 rootPath p)
  show ?case
  proof (cases "p = rootPath \<or> p = ''/'' \<or> \<not> rooted p")
    case True
    then have "levels rootPath p = [p]" by (subst levels.simps) auto
    with "1.prems" show ?thesis by simp
  next
    case False
    then have lv: "levels rootPath p = p # levels rootPath (Dir p)"
      by (subst levels.simps) simp
    have hd: "levels rootPath (Dir p) ! 0 = Dir p"
      by (subst levels.simps) simp
    show ?thesis
    proof (cases i)
      case 0
      with False hd show ?thesis by (simp add: lv)
    next
      case (Suc j)
      with "1.prems" have "Suc j < length (levels rootPath (Dir p))" by (simp add: lv)
      with False have "levels rootPath (Dir p) ! Suc j = Dir (levels rootPath (Dir p) ! j)
        \<and> levels rootPath (Dir p) ! j \<noteq> rootPath \<and> levels rootPath (Dir p) ! j \<noteq> ''/''"
        by (intro "1.IH") simp_all
      then show ?thesis by (simp add: lv Suc)
    qed
  qed
qed

lemma f64_le_PInf: "f64_le PInf x \<Longrightarrow> x = PInf"
  by (cases x) (auto simp: f64_le_def)

lemma walk_result:
  assumes r: "rooted p" and nn: "NaN \<notin> set (samples calcFunc (levels rootPath p))"
  shows "\<exists>r. walkHierarchy p calcFunc rootPath = Some (Inr r) \<and>
     (if \<forall>x\<in>set (samples calcFunc (levels rootPath p)). x = PInf then r = Fin 0
      else r \<noteq> PInf \<and> is_least (samples calcFunc (levels rootPath p)) r)"
proof -
  let ?S = "samples calcFunc (levels rootPath p)"
  let ?m = "foldl Min_f64 PInf ?S"
  have L: "is_least (PInf # ?S) ?m"
    using nn by (intro foldl_Min_f64_least) simp_all
  have W: "walkHierarchy p calcFunc rootPath = Some (Inr (if ?m = PInf then Fin 0 else ?m))"
    by (simp add: walkHierarchy_levels [OF r] Let_def)
  show ?thesis
  proof (cases "\<forall>x\<in>set ?S. x = PInf")
    case True
    with L have "?m = PInf" by (auto simp: is_least_def)
    with W True show ?thesis by simp
  next
    case False
    then obtain x where x: "x \<in> set ?S" "x \<noteq> PInf" by blast
    with L have "f64_le ?m x" by (simp add: is_least_def)
    with x(2) have m: "?m \<noteq> PInf" using f64_le_PInf [of x] by auto
    with L have "is_least ?S ?m" by (auto simp: is_least_def)
    with W m False show ?thesis by auto
  qed
qed

lemma samples_ordinary:
  assumes "calcFunc = calculateV1CPUQuota sys \<or> calcFunc = calculateV2CPUQuota sys"
    and "x \<in> set (samples calcFunc ps)"
  shows "ordinary x"
  using assms calculateV1CPUQuota_ordinary calculateV2CPUQuota_ordinary
  by (fastforce simp: samples_def split: sum.splits)

lemma samples_not_NaN:
  assumes "calcFunc = calculateV1CPUQuota sys \<or> calcFunc = calculateV2CPUQuota sys"
  shows "NaN \<notin> set (samples calcFunc ps)"
  using samples_ordinary [OF assms, of NaN ps] by (auto simp: ordinary_def)

lemma rooted_mounts [simp]: "rooted cgroupV1CPUPath" "rooted cgroupV2Path"
  by (simp_all add: rooted_def cgroupV1CPUPath_def cgroupV2Path_def)

section \<open>Hosts to run the resolver on\<close>

text \<open>A host with or without the cgroup v2 marker file and the cgroup v1 CPU controller
  directory, and with the listed files.\<close>

definition host :: "bool \<Rightarrow> bool \<Rightarrow> (string \<times> string) list \<Rightarrow> system" where
  "host v2 v1 files =
     \<lparr> stat_ok = (\<lambda>p. (v2 \<and> p = ''/sys/fs/cgroup/cgroup.controllers'')
                        \<or> (v1 \<and> p = ''/sys/fs/cgroup/cpu'')),
       file_data = map_of files \<rparr>"

text \<open>A hybrid host: both hierarchies are mounted, the v2 root allows 2 CPUs and the v1
  root allows 3.\<close>

definition both_host :: system where
  "both_host = host True True
     [(''/proc/self/cgroup'', ''1:cpu:/\<newline>0::/\<newline>''),
      (''/sys/fs/cgroup/cpu.max'', ''200000 100000\<newline>''),
      (''/sys/fs/cgroup/cpu/cpu.cfs_quota_us'', ''300000\<newline>''),
      (''/sys/fs/cgroup/cpu/cpu.cfs_period_us'', ''100000\<newline>'')]"

lemma marker_path:
  "Join cgroupV2Path ''cgroup.controllers'' = ''/sys/fs/cgroup/cgroup.controllers''"
  by code_simp

lemma getEffectiveCPULimit_v2:
  assumes "stat_ok sys ''/sys/fs/cgroup/cgroup.controllers''"
    and "getProcessCgroupPath sys [] = Inr cp"
  shows "getEffectiveCPULimit sys
     = walkHierarchy (Join cgroupV2Path cp) (calculateV2CPUQuota sys) cgroupV2Path"
  using assms by (simp add: getEffectiveCPULimit_def marker_path getCgroupV2Limit_def)

lemma getEffectiveCPULimit_v1:
  assumes "\<not> stat_ok sys ''/sys/fs/cgroup/cgroup.controllers''"
    and "stat_ok sys ''/sys/fs/cgroup/cpu''"
    and "getProcessCgroupPath sys ''cpu'' = Inr cp"
  shows "getEffectiveCPULimit sys
     = walkHierarchy (Join cgroupV1CPUPath cp) (calculateV1CPUQuota sys) cgroupV1CPUPath"
  using assms
  by (simp add: getEffectiveCPULimit_def marker_path getCgroupV1Limit_def cgroupV1CPUPath_def)

lemma Min_f64_PInf_Fin [simp]: "Min_f64 PInf (Fin a) = Fin a"
  by (simp add: Min_f64_def)

lemma join_root_v2: "Join ''/sys/fs/cgroup'' ''/'' = ''/sys/fs/cgroup''"
  by code_simp

lemma join_root_v1: "Join ''/sys/fs/cgroup/cpu'' ''/'' = ''/sys/fs/cgroup/cpu''"
  by code_simp

lemma levels_root [simp]: "levels rootPath rootPath = [rootPath]"
  by (subst levels.simps) simp

lemma join_cpu_max: "Join ''/sys/fs/cgroup'' ''cpu.max'' = ''/sys/fs/cgroup/cpu.max''"
  by code_simp

lemma join_v1_quota:
  "Join ''/sys/fs/cgroup/cpu'' ''cpu.cfs_quota_us'' = ''/sys/fs/cgroup/cpu/cpu.cfs_quota_us''"
  by code_simp

lemma join_v1_period:
  "Join ''/sys/fs/cgroup/cpu'' ''cpu.cfs_period_us'' = ''/sys/fs/cgroup/cpu/cpu.cfs_period_us''"
  by code_simp

lemma both_host_v2_path: "getProcessCgroupPath both_host [] = Inr ''/''"
  by code_simp

lemma both_host_v1_path: "getProcessCgroupPath both_host ''cpu'' = Inr ''/''"
  by code_simp

lemma both_host_v2_sample: "calculateV2CPUQuota both_host ''/sys/fs/cgroup'' = Inr (Fin 2)"
proof -
  have "file_data both_host ''/sys/fs/cgroup/cpu.max'' = Some ''200000 100000\<newline>''"
    by code_simp
  moreover have "Fields ''200000 100000\<newline>'' = [''200000'', ''100000'']"
    by code_simp
  moreover have "ParseInt ''200000'' = Inr 200000" and "ParseInt ''100000'' = Inr 100000"
    by code_simp+
  ultimately show ?thesis
    by (simp add: calculateV2CPUQuota_def join_cpu_max f64_div_dvd)
qed

lemma both_host_v1_sample: "calculateV1CPUQuota both_host ''/sys/fs/cgroup/cpu'' = Inr (Fin 3)"
proof -
  have "readIntFromFile both_host ''/sys/fs/cgroup/cpu/cpu.cfs_quota_us'' = Inr 300000"
    by code_simp
  moreover have "readIntFromFile both_host ''/sys/fs/cgroup/cpu/cpu.cfs_period_us'' = Inr 100000"
    by code_simp
  ultimately show ?thesis
    by (simp add: calculateV1CPUQuota_def join_v1_quota join_v1_period
        cgroupV1UnlimitedQuota_def f64_div_dvd)
qed

lemma both_host_v2_limit: "getCgroupV2Limit both_host = Some (Inr (Fin 2))"
  by (simp add: getCgroupV2Limit_def both_host_v2_path cgroupV2Path_def join_root_v2
      walkHierarchy_levels rooted_def samples_def both_host_v2_sample)

lemma both_host_v1_limit: "getCgroupV1Limit both_host = Some (Inr (Fin 3))"
  by (simp add: getCgroupV1Limit_def both_host_v1_path cgroupV1CPUPath_def join_root_v1
      walkHierarchy_levels rooted_def samples_def both_host_v1_sample)

section \<open>Version detection\<close>

text \<open>
  Claim C6. When the cgroup v2 marker file \<^verbatim>\<open>/sys/fs/cgroup/cgroup.controllers\<close> and the
  cgroup v1 CPU controller directory \<^verbatim>\<open>/sys/fs/cgroup/cpu\<close> both exist,
  \<^verbatim>\<open>getEffectiveCPULimit\<close> takes the v2 path: its result is the result of
  \<^verbatim>\<open>getCgroupV2Limit\<close>.
\<close>

theorem getEffectiveCPULimit_prefers_v2:
  assumes "stat_ok sys ''/sys/fs/cgroup/cgroup.controllers''"
    and "stat_ok sys ''/sys/fs/cgroup/cpu''"
  shows "getEffectiveCPULimit sys = getCgroupV2Limit sys"
  using assms(1) by (simp add: getEffectiveCPULimit_def marker_path)

text \<open>On the hybrid host the two paths differ, and the resolver answers with the v2
  limit.\<close>

theorem getEffectiveCPULimit_prefers_v2_witness:
  "stat_ok both_host ''/sys/fs/cgroup/cgroup.controllers''
   \<and> stat_ok both_host ''/sys/fs/cgroup/cpu''
   \<and> getCgroupV1Limit both_host = Some (Inr (Fin 3))
   \<and> getEffectiveCPULimit both_host = Some (Inr (Fin 2))"
proof -
  have a: "stat_ok both_host ''/sys/fs/cgroup/cgroup.controllers''"
    and b: "stat_ok both_host ''/sys/fs/cgroup/cpu''"
    by (simp_all add: both_host_def host_def)
  from getEffectiveCPULimit_prefers_v2 [OF a b] a b show ?thesis
    by (simp add: both_host_v2_limit both_host_v1_limit)
qed


section \<open>Termination of the walk\<close>

lemma levels_outside:
  "levels ''/sys/fs/cgroup/cpu'' ''/sys/fs/cgroup/a''
     = [''/sys/fs/cgroup/a'', ''/sys/fs/cgroup'', ''/sys/fs'', ''/sys'', ''/'']"
  by code_simp

text \<open>From the relative path \<open>''.''\<close> the walk never returns, unless that is the mount
  root: \<^verbatim>\<open>Dir\<close> maps it to itself.\<close>

lemma Dir_dot: "Dir ''.'' = ''.''"
  by code_simp

lemma walk_loop_relative:
  assumes "walk_loop calcFunc rootPath m p = Some y"
  shows "\<not> (p = ''.'' \<and> rootPath \<noteq> ''.'')"
proof (rule walk_loop.raw_induct
    [where P = "\<lambda>calcFunc rootPath m p y. \<not> (p = ''.'' \<and> rootPath \<noteq> ''.'')", OF _ assms])
  fix f :: "(string \<Rightarrow> error + float64) \<Rightarrow> string \<Rightarrow> float64 \<Rightarrow> string \<Rightarrow> float64 option"
  fix c :: "string \<Rightarrow> error + float64"
  fix r p :: string and m y :: float64
  assume IH: "\<And>c r m p y. f c r m p = Some y \<Longrightarrow> \<not> (p = ''.'' \<and> r \<noteq> ''.'')"
  assume step: "(let m' = (case c p of Inl err \<Rightarrow> m | Inr limit \<Rightarrow> Min_f64 m limit)
      in if p = r \<or> p = ''/'' then Some m' else f c r m' (Dir p)) = Some y"
  show "\<not> (p = ''.'' \<and> r \<noteq> ''.'')"
  proof
    assume a: "p = ''.'' \<and> r \<noteq> ''.''"
    with step obtain m' where "f c r m' ''.'' = Some y"
      by (auto simp: Let_def Dir_dot)
    from IH [OF this] a show False by simp
  qed
qed

lemma walk_loop_diverges: "rootPath \<noteq> ''.'' \<Longrightarrow> walk_loop calcFunc rootPath m ''.'' = None"
  using walk_loop_relative [of calcFunc rootPath m "''.''"] by (cases "walk_loop calcFunc rootPath m ''.''") auto

text \<open>
  Claim C9. From every absolute start path the walk of \<^verbatim>\<open>walkHierarchy\<close> returns, for
  every mount root and every quota calculation: each turn of the loop moves to the
  \<^verbatim>\<open>Dir\<close> of the current directory, a directory other than the mount root and
  \<open>''/''\<close>, and the loop stops at the first directory that is the mount root or \<open>''/''\<close>.
\<close>

theorem walkHierarchy_terminates:
  assumes "rooted startPath"
  shows "(\<exists>r. walkHierarchy startPath calcFunc rootPath = Some (Inr r))
    \<and> walk_loop calcFunc rootPath PInf startPath
          = Some (foldl (fold_level calcFunc) PInf (levels rootPath startPath))
    \<and> (last (levels rootPath startPath) = rootPath \<or> last (levels rootPath startPath) = ''/'')
    \<and> (\<forall>i. Suc i < length (levels rootPath startPath) \<longrightarrow>
           levels rootPath startPath ! Suc i = Dir (levels rootPath startPath ! i)
           \<and> levels rootPath startPath ! i \<noteq> rootPath
           \<and> levels rootPath startPath ! i \<noteq> ''/'')"
proof -
  have "\<exists>r. walkHierarchy startPath calcFunc rootPath = Some (Inr r)"
    by (simp add: walkHierarchy_levels [OF assms])
  moreover have "walk_loop calcFunc rootPath PInf startPath
          = Some (foldl (fold_level calcFunc) PInf (levels rootPath startPath))"
    using assms by (rule walk_loop_levels)
  moreover have "last (levels rootPath startPath) = rootPath
          \<or> last (levels rootPath startPath) = ''/''"
    using assms by (rule levels_last)
  ultimately show ?thesis using levels_step [of _ rootPath startPath] by blast
qed

text \<open>A walk that starts outside the v1 mount root passes no directory equal to it and
  stops at \<open>''/''\<close>.\<close>

theorem walkHierarchy_terminates_witness:
  "rooted ''/sys/fs/cgroup/a''
   \<and> (\<exists>r. walkHierarchy ''/sys/fs/cgroup/a'' (calculateV1CPUQuota both_host)
             ''/sys/fs/cgroup/cpu'' = Some (Inr r))
   \<and> last (levels ''/sys/fs/cgroup/cpu'' ''/sys/fs/cgroup/a'') = ''/''"
proof -
  have r: "rooted ''/sys/fs/cgroup/a''" by (simp add: rooted_def)
  from walkHierarchy_terminates [OF r, of "calculateV1CPUQuota both_host" "''/sys/fs/cgroup/cpu''"]
  show ?thesis using r by (simp add: levels_outside)
qed

section \<open>An unlimited v1 quota\<close>

text \<open>A v1 host whose root cgroup has the quota \<open>-1\<close> and the given period file, or none.\<close>

definition unlimited_host :: "string option \<Rightarrow> system" where
  "unlimited_host period = host False True
     ([(''/proc/self/cgroup'', ''3:cpu,cpuacct:/\<newline>''),
       (''/sys/fs/cgroup/cpu/cpu.cfs_quota_us'', ''-1\<newline>'')]
      @ (case period of None \<Rightarrow> []
         | Some content \<Rightarrow> [(''/sys/fs/cgroup/cpu/cpu.cfs_period_us'', content)]))"

lemma unlimited_host_quota:
  "file_data (unlimited_host period) ''/sys/fs/cgroup/cpu/cpu.cfs_quota_us'' = Some ''-1\<newline>''"
  by (simp add: unlimited_host_def host_def)

lemma parse_minus_one: "ParseInt (TrimSpace ''-1\<newline>'') = Inr (- 1)"
  by code_simp

text \<open>
  Claim C4. When the file \<^verbatim>\<open>cpu.cfs_quota_us\<close> of a v1 level parses to \<open>-1\<close>,
  \<^verbatim>\<open>calculateV1CPUQuota\<close> returns the positive infinity and no error, on every system
  with that quota file: the period file is not read, whatever it holds.
\<close>

theorem calculateV1CPUQuota_unlimited:
  assumes "readIntFromFile sys (Join path ''cpu.cfs_quota_us'') = Inr (- 1)"
    and "file_data sys' (Join path ''cpu.cfs_quota_us'')
           = file_data sys (Join path ''cpu.cfs_quota_us'')"
  shows "calculateV1CPUQuota sys' path = Inr PInf"
proof -
  from assms have "readIntFromFile sys' (Join path ''cpu.cfs_quota_us'') = Inr (- 1)"
    by (simp add: readIntFromFile_def)
  then show ?thesis
    by (simp add: calculateV1CPUQuota_def cgroupV1UnlimitedQuota_def)
qed

text \<open>With a period file that is not a number, and with no period file at all.\<close>

theorem calculateV1CPUQuota_unlimited_witness:
  "readIntFromFile (unlimited_host (Some ''not a number'')) ''/sys/fs/cgroup/cpu/cpu.cfs_quota_us''
     = Inr (- 1)
   \<and> readIntFromFile (unlimited_host (Some ''not a number''))
        ''/sys/fs/cgroup/cpu/cpu.cfs_period_us'' = Inl ErrSyntax
   \<and> calculateV1CPUQuota (unlimited_host (Some ''not a number'')) ''/sys/fs/cgroup/cpu'' = Inr PInf
   \<and> calculateV1CPUQuota (unlimited_host None) ''/sys/fs/cgroup/cpu'' = Inr PInf"
proof -
  let ?h = "unlimited_host (Some ''not a number'')"
  have q: "readIntFromFile ?h (Join ''/sys/fs/cgroup/cpu'' ''cpu.cfs_quota_us'') = Inr (- 1)"
    by (simp add: readIntFromFile_def join_v1_quota unlimited_host_quota parse_minus_one)
  have p: "readIntFromFile ?h ''/sys/fs/cgroup/cpu/cpu.cfs_period_us'' = Inl ErrSyntax"
    by code_simp
  have same: "file_data h (Join ''/sys/fs/cgroup/cpu'' ''cpu.cfs_quota_us'')
      = file_data ?h (Join ''/sys/fs/cgroup/cpu'' ''cpu.cfs_quota_us'')"
    if "h = unlimited_host None \<or> h = ?h" for h
    using that by (auto simp: join_v1_quota unlimited_host_quota)
  from calculateV1CPUQuota_unlimited [OF q same, of ?h]
    calculateV1CPUQuota_unlimited [OF q same, of "unlimited_host None"] q p
  show ?thesis by (simp add: join_v1_quota)
qed


section \<open>The v2 quota file\<close>

text \<open>A v2 host whose process is in the root cgroup, with the given content of the root's
  \<^verbatim>\<open>cpu.max\<close>.\<close>

definition v2_host :: "string \<Rightarrow> system" where
  "v2_host content = host True False
     [(''/proc/self/cgroup'', ''0::/\<newline>''), (''/sys/fs/cgroup/cpu.max'', content)]"

lemma v2_host_file:
  "file_data (v2_host content) (Join ''/sys/fs/cgroup'' ''cpu.max'') = Some content"
  by (simp add: v2_host_def host_def join_cpu_max)

lemma fields_max: "Fields ''max 100000\<newline>'' = [''max'', ''100000'']"
  by code_simp

lemma fields_two: "Fields ''200000 100000\<newline>'' = [''200000'', ''100000'']"
  by code_simp

lemma fields_zero_period: "Fields ''200000 0\<newline>'' = [''200000'', ''0'']"
  by code_simp

lemma fields_three: "Fields ''1 2 3'' = [''1'', ''2'', ''3'']"
  by code_simp

lemma fields_word: "Fields ''lots 100000'' = [''lots'', ''100000'']"
  by code_simp

lemma parse_samples:
  "ParseInt ''200000'' = Inr 200000" "ParseInt ''100000'' = Inr 100000"
  "ParseInt ''0'' = Inr 0" "ParseInt ''lots'' = Inl ErrSyntax"
  by code_simp+

text \<open>
  Claim C5. At a v2 level \<^verbatim>\<open>calculateV2CPUQuota\<close> reads the one file \<^verbatim>\<open>cpu.max\<close> and
  cuts it into fields at white space. With two fields of which the first is \<open>max\<close> the
  sample is the positive infinity; with two fields that parse as integers, the second not
  zero, the sample is the float quotient of quota and period; with any other number of
  fields, a field that does not parse or a period of zero, the calculation fails, the
  running minimum of the walk is unchanged at that level and the walk goes on.
\<close>

theorem calculateV2CPUQuota_cases:
  assumes "file_data sys (Join path ''cpu.max'') = Some content"
  shows "(\<forall>q p. Fields content = [q, p] \<and> q = ''max'' \<longrightarrow>
            calculateV2CPUQuota sys path = Inr PInf)
    \<and> (\<forall>q p quota period. Fields content = [q, p] \<and> q \<noteq> ''max''
            \<and> ParseInt q = Inr quota \<and> ParseInt p = Inr period \<and> period \<noteq> 0 \<longrightarrow>
            calculateV2CPUQuota sys path
              = Inr (f64_div (float64_of_int quota) (float64_of_int period)))
    \<and> (length (Fields content) \<noteq> 2
         \<or> (\<exists>q p. Fields content = [q, p] \<and> q \<noteq> ''max''
               \<and> ((\<exists>e. ParseInt q = Inl e) \<or> (\<exists>e. ParseInt p = Inl e) \<or> ParseInt p = Inr 0))
         \<longrightarrow> (\<exists>e. calculateV2CPUQuota sys path = Inl e
                \<and> fold_level (calculateV2CPUQuota sys) minLimit path = minLimit
                \<and> walk_loop (calculateV2CPUQuota sys) rootPath minLimit path
                    = (if path = rootPath \<or> path = ''/'' then Some minLimit
                       else walk_loop (calculateV2CPUQuota sys) rootPath minLimit (Dir path))))"
proof (intro conjI allI impI)
  fix q p
  assume "Fields content = [q, p] \<and> q = ''max''"
  with assms show "calculateV2CPUQuota sys path = Inr PInf"
    by (simp add: calculateV2CPUQuota_def)
next
  fix q p quota period
  assume "Fields content = [q, p] \<and> q \<noteq> ''max''
            \<and> ParseInt q = Inr quota \<and> ParseInt p = Inr period \<and> period \<noteq> 0"
  with assms show "calculateV2CPUQuota sys path
              = Inr (f64_div (float64_of_int quota) (float64_of_int period))"
    by (simp add: calculateV2CPUQuota_def)
next
  assume bad: "length (Fields content) \<noteq> 2
         \<or> (\<exists>q p. Fields content = [q, p] \<and> q \<noteq> ''max''
               \<and> ((\<exists>e. ParseInt q = Inl e) \<or> (\<exists>e. ParseInt p = Inl e) \<or> ParseInt p = Inr 0))"
  have "\<exists>e. calculateV2CPUQuota sys path = Inl e"
  proof (cases "length (Fields content) \<noteq> 2")
    case True
    with assms show ?thesis by (simp add: calculateV2CPUQuota_def)
  next
    case False
    with bad obtain q p where f: "Fields content = [q, p]" "q \<noteq> ''max''"
      and pe: "(\<exists>e. ParseInt q = Inl e) \<or> (\<exists>e. ParseInt p = Inl e) \<or> ParseInt p = Inr 0"
      by blast
    show ?thesis
      using assms f pe
      by (cases "ParseInt q"; cases "ParseInt p") (auto simp: calculateV2CPUQuota_def)
  qed
  then obtain e where e: "calculateV2CPUQuota sys path = Inl e" ..
  then have "fold_level (calculateV2CPUQuota sys) minLimit path = minLimit"
    by (simp add: fold_level_def)
  moreover from e have "walk_loop (calculateV2CPUQuota sys) rootPath minLimit path
                    = (if path = rootPath \<or> path = ''/'' then Some minLimit
                       else walk_loop (calculateV2CPUQuota sys) rootPath minLimit (Dir path))"
    by (subst walk_loop.simps) simp
  ultimately show "\<exists>e. calculateV2CPUQuota sys path = Inl e
                \<and> fold_level (calculateV2CPUQuota sys) minLimit path = minLimit
                \<and> walk_loop (calculateV2CPUQuota sys) rootPath minLimit path
                    = (if path = rootPath \<or> path = ''/'' then Some minLimit
                       else walk_loop (calculateV2CPUQuota sys) rootPath minLimit (Dir path))"
    using e by blast
qed

text \<open>The five kinds of content at the root of a v2 host.\<close>

theorem calculateV2CPUQuota_cases_witness:
  "calculateV2CPUQuota (v2_host ''max 100000\<newline>'') ''/sys/fs/cgroup'' = Inr PInf
   \<and> calculateV2CPUQuota (v2_host ''200000 100000\<newline>'') ''/sys/fs/cgroup'' = Inr (Fin 2)
   \<and> (\<exists>e. calculateV2CPUQuota (v2_host ''200000 0\<newline>'') ''/sys/fs/cgroup'' = Inl e)
   \<and> (\<exists>e. calculateV2CPUQuota (v2_host ''1 2 3'') ''/sys/fs/cgroup'' = Inl e)
   \<and> (\<exists>e. calculateV2CPUQuota (v2_host ''lots 100000'') ''/sys/fs/cgroup'' = Inl e)
   \<and> walk_loop (calculateV2CPUQuota (v2_host ''lots 100000'')) ''/sys/fs/cgroup'' (Fin 3)
         ''/sys/fs/cgroup'' = Some (Fin 3)"
proof -
  note c = calculateV2CPUQuota_cases [OF v2_host_file]
  have "calculateV2CPUQuota (v2_host ''max 100000\<newline>'') ''/sys/fs/cgroup'' = Inr PInf"
    using c [of "''max 100000\<newline>''"] by (simp add: fields_max)
  moreover have "calculateV2CPUQuota (v2_host ''200000 100000\<newline>'') ''/sys/fs/cgroup''
      = Inr (Fin 2)"
    using c [of "''200000 100000\<newline>''"] by (simp add: fields_two parse_samples f64_div_dvd)
  moreover have "\<exists>e. calculateV2CPUQuota (v2_host ''200000 0\<newline>'') ''/sys/fs/cgroup'' = Inl e"
    using c [of "''200000 0\<newline>''"] by (simp add: fields_zero_period parse_samples)
  moreover have "\<exists>e. calculateV2CPUQuota (v2_host ''1 2 3'') ''/sys/fs/cgroup'' = Inl e"
    using c [of "''1 2 3''"] by (simp add: fields_three)
  moreover have "(\<exists>e. calculateV2CPUQuota (v2_host ''lots 100000'') ''/sys/fs/cgroup'' = Inl e)
    \<and> walk_loop (calculateV2CPUQuota (v2_host ''lots 100000'')) ''/sys/fs/cgroup'' (Fin 3)
         ''/sys/fs/cgroup'' = Some (Fin 3)"
    using c [of "''lots 100000''" "Fin 3" "''/sys/fs/cgroup''"]
    by (simp add: fields_word parse_samples)
  ultimately show ?thesis by blast
qed


section \<open>The sentinel\<close>

lemma cgroupLimit_of_zero:
  "getEffectiveCPULimit sys = Some (Inr (Fin 0)) \<Longrightarrow> cgroupLimit sys = Some (Fin 0, Fin 0, None)"
  by (simp add: cgroupLimit_def)

lemma walk_no_finite:
  assumes "rooted p"
    and "\<forall>l\<in>set (levels rootPath p). \<forall>q. calcFunc l \<noteq> Inr (Fin q)"
    and "calcFunc = calculateV1CPUQuota sys \<or> calcFunc = calculateV2CPUQuota sys"
  shows "walkHierarchy p calcFunc rootPath = Some (Inr (Fin 0))"
proof -
  have all: "\<forall>x\<in>set (samples calcFunc (levels rootPath p)). x = PInf"
  proof
    fix x
    assume x: "x \<in> set (samples calcFunc (levels rootPath p))"
    then obtain l where "l \<in> set (levels rootPath p)" and "calcFunc l = Inr x"
      by (auto simp: samples_def split: sum.splits)
    with assms(2) have "\<forall>q. x \<noteq> Fin q" by auto
    moreover from samples_ordinary [OF assms(3) x] have "ordinary x" .
    ultimately show "x = PInf" by (auto simp: ordinary_def)
  qed
  from walk_result [OF assms(1) samples_not_NaN [OF assms(3)], of rootPath] all
  show ?thesis by auto
qed

text \<open>A v2 host whose process is two levels down, with no quota file anywhere.\<close>

definition bare_host :: system where
  "bare_host = host True False [(''/proc/self/cgroup'', ''0::/a/b\<newline>'')]"

lemma bare_host_path: "getProcessCgroupPath bare_host [] = Inr ''/a/b''"
  by code_simp

lemma bare_host_levels:
  "levels cgroupV2Path (Join cgroupV2Path ''/a/b'')
     = [''/sys/fs/cgroup/a/b'', ''/sys/fs/cgroup/a'', ''/sys/fs/cgroup'']"
  by code_simp

lemma bare_host_samples:
  "calculateV2CPUQuota bare_host ''/sys/fs/cgroup/a/b'' = Inl (ReadError ''/sys/fs/cgroup/a/b/cpu.max'')"
  "calculateV2CPUQuota bare_host ''/sys/fs/cgroup/a'' = Inl (ReadError ''/sys/fs/cgroup/a/cpu.max'')"
  "calculateV2CPUQuota bare_host ''/sys/fs/cgroup'' = Inl (ReadError ''/sys/fs/cgroup/cpu.max'')"
  by code_simp+

text \<open>
  Claim C3. \<^verbatim>\<open>cgroupLimit\<close> returns \<open>(0, 0, nil)\<close> when neither the v2 marker file nor the
  v1 CPU controller directory exists, and when a hierarchy is found, the process's path in
  it is found and no level of the walk yields a finite sample (every calculation fails or
  is unlimited), so that the running minimum stays at the positive infinity.
\<close>

theorem cgroupLimit_sentinel:
  "(\<not> stat_ok sys ''/sys/fs/cgroup/cgroup.controllers'' \<and> \<not> stat_ok sys ''/sys/fs/cgroup/cpu''
      \<longrightarrow> cgroupLimit sys = Some (Fin 0, Fin 0, None))
   \<and> (stat_ok sys ''/sys/fs/cgroup/cgroup.controllers''
       \<and> getProcessCgroupPath sys [] = Inr cp
       \<and> (\<forall>l\<in>set (levels cgroupV2Path (Join cgroupV2Path cp)).
             \<forall>q. calculateV2CPUQuota sys l \<noteq> Inr (Fin q))
      \<longrightarrow> cgroupLimit sys = Some (Fin 0, Fin 0, None))
   \<and> (\<not> stat_ok sys ''/sys/fs/cgroup/cgroup.controllers'' \<and> stat_ok sys ''/sys/fs/cgroup/cpu''
       \<and> getProcessCgroupPath sys ''cpu'' = Inr cp
       \<and> (\<forall>l\<in>set (levels cgroupV1CPUPath (Join cgroupV1CPUPath cp)).
             \<forall>q. calculateV1CPUQuota sys l \<noteq> Inr (Fin q))
      \<longrightarrow> cgroupLimit sys = Some (Fin 0, Fin 0, None))"
proof (intro conjI impI)
  assume "\<not> stat_ok sys ''/sys/fs/cgroup/cgroup.controllers'' \<and> \<not> stat_ok sys ''/sys/fs/cgroup/cpu''"
  then have "getEffectiveCPULimit sys = Some (Inr (Fin 0))"
    by (simp add: getEffectiveCPULimit_def marker_path cgroupV1CPUPath_def)
  then show "cgroupLimit sys = Some (Fin 0, Fin 0, None)" by (rule cgroupLimit_of_zero)
next
  assume a: "stat_ok sys ''/sys/fs/cgroup/cgroup.controllers''
       \<and> getProcessCgroupPath sys [] = Inr cp
       \<and> (\<forall>l\<in>set (levels cgroupV2Path (Join cgroupV2Path cp)).
             \<forall>q. calculateV2CPUQuota sys l \<noteq> Inr (Fin q))"
  then have "getEffectiveCPULimit sys
     = walkHierarchy (Join cgroupV2Path cp) (calculateV2CPUQuota sys) cgroupV2Path"
    by (simp add: getEffectiveCPULimit_v2)
  also have "\<dots> = Some (Inr (Fin 0))"
    using a by (intro walk_no_finite [where sys = sys]) (simp_all add: Join_rooted)
  finally show "cgroupLimit sys = Some (Fin 0, Fin 0, None)" by (rule cgroupLimit_of_zero)
next
  assume a: "\<not> stat_ok sys ''/sys/fs/cgroup/cgroup.controllers'' \<and> stat_ok sys ''/sys/fs/cgroup/cpu''
       \<and> getProcessCgroupPath sys ''cpu'' = Inr cp
       \<and> (\<forall>l\<in>set (levels cgroupV1CPUPath (Join cgroupV1CPUPath cp)).
             \<forall>q. calculateV1CPUQuota sys l \<noteq> Inr (Fin q))"
  then have "getEffectiveCPULimit sys
     = walkHierarchy (Join cgroupV1CPUPath cp) (calculateV1CPUQuota sys) cgroupV1CPUPath"
    by (simp add: getEffectiveCPULimit_v1)
  also have "\<dots> = Some (Inr (Fin 0))"
    using a by (intro walk_no_finite [where sys = sys]) (simp_all add: Join_rooted)
  finally show "cgroupLimit sys = Some (Fin 0, Fin 0, None)" by (rule cgroupLimit_of_zero)
qed

text \<open>A host with no cgroup file system, and the v2 host where the calculation fails at
  each of the three levels.\<close>

theorem cgroupLimit_sentinel_witness:
  "\<not> stat_ok (host False False []) ''/sys/fs/cgroup/cgroup.controllers''
   \<and> \<not> stat_ok (host False False []) ''/sys/fs/cgroup/cpu''
   \<and> cgroupLimit (host False False []) = Some (Fin 0, Fin 0, None)
   \<and> stat_ok bare_host ''/sys/fs/cgroup/cgroup.controllers''
   \<and> getProcessCgroupPath bare_host [] = Inr ''/a/b''
   \<and> levels cgroupV2Path (Join cgroupV2Path ''/a/b'')
       = [''/sys/fs/cgroup/a/b'', ''/sys/fs/cgroup/a'', ''/sys/fs/cgroup'']
   \<and> calculateV2CPUQuota bare_host ''/sys/fs/cgroup/a/b''
       = Inl (ReadError ''/sys/fs/cgroup/a/b/cpu.max'')
   \<and> calculateV2CPUQuota bare_host ''/sys/fs/cgroup/a''
       = Inl (ReadError ''/sys/fs/cgroup/a/cpu.max'')
   \<and> calculateV2CPUQuota bare_host ''/sys/fs/cgroup''
       = Inl (ReadError ''/sys/fs/cgroup/cpu.max'')
   \<and> cgroupLimit bare_host = Some (Fin 0, Fin 0, None)"
proof -
  have n: "\<not> stat_ok (host False False []) ''/sys/fs/cgroup/cgroup.controllers''
     \<and> \<not> stat_ok (host False False []) ''/sys/fs/cgroup/cpu''"
    by (simp add: host_def)
  have b: "stat_ok bare_host ''/sys/fs/cgroup/cgroup.controllers''"
    by (simp add: bare_host_def host_def)
  have f: "\<forall>l\<in>set (levels cgroupV2Path (Join cgroupV2Path ''/a/b'')).
         \<forall>q. calculateV2CPUQuota bare_host l \<noteq> Inr (Fin q)"
    by (simp add: bare_host_levels bare_host_samples)
  from cgroupLimit_sentinel [of "host False False []" "[]"] n
  have "cgroupLimit (host False False []) = Some (Fin 0, Fin 0, None)" by blast
  moreover from cgroupLimit_sentinel [of bare_host "''/a/b''"] b bare_host_path f
  have "cgroupLimit bare_host = Some (Fin 0, Fin 0, None)" by blast
  ultimately show ?thesis
    using n b bare_host_path bare_host_levels bare_host_samples by simp
qed

section \<open>A quota of zero\<close>

lemma f64_le_antisym: "f64_le x y \<Longrightarrow> f64_le y x \<Longrightarrow> x = y"
  by (cases x; cases y) (auto simp: f64_le_def)

lemma is_least_unique: "is_least xs r \<Longrightarrow> is_least xs r' \<Longrightarrow> r = r'"
  by (auto simp: is_least_def intro: f64_le_antisym)

lemma walk_least_zero:
  assumes "rooted p"
    and "calcFunc = calculateV1CPUQuota sys \<or> calcFunc = calculateV2CPUQuota sys"
    and "is_least (samples calcFunc (levels rootPath p)) (Fin 0)"
  shows "walkHierarchy p calcFunc rootPath = Some (Inr (Fin 0))"
proof -
  from walk_result [OF assms(1) samples_not_NaN [OF assms(2)], of rootPath]
  obtain r where w: "walkHierarchy p calcFunc rootPath = Some (Inr r)"
    and r: "if \<forall>x\<in>set (samples calcFunc (levels rootPath p)). x = PInf then r = Fin 0
            else r \<noteq> PInf \<and> is_least (samples calcFunc (levels rootPath p)) r"
    by blast
  have "r = Fin 0"
  proof (cases "\<forall>x\<in>set (samples calcFunc (levels rootPath p)). x = PInf")
    case True
    with r show ?thesis by simp
  next
    case False
    with r have "is_least (samples calcFunc (levels rootPath p)) r" by simp
    then show ?thesis using assms(3) by (rule is_least_unique)
  qed
  with w show ?thesis by simp
qed

text \<open>A v1 host whose process is in the root cgroup, with the given quota and period
  files.\<close>

definition v1_host :: "string \<Rightarrow> string \<Rightarrow> system" where
  "v1_host quota period = host False True
     [(''/proc/self/cgroup'', ''3:cpu,cpuacct:/\<newline>''),
      (''/sys/fs/cgroup/cpu/cpu.cfs_quota_us'', quota),
      (''/sys/fs/cgroup/cpu/cpu.cfs_period_us'', period)]"

lemma scan_v1_root: "scan_cgroup ''cpu'' (raw_lines ''3:cpu,cpuacct:/\<newline>'') = Inr ''/''"
  by code_simp

lemma v1_host_path: "getProcessCgroupPath (v1_host quota period) ''cpu'' = Inr ''/''"
  by (simp add: getProcessCgroupPath_def v1_host_def host_def scan_v1_root)

lemma v1_host_stat:
  "\<not> stat_ok (v1_host quota period) ''/sys/fs/cgroup/cgroup.controllers''"
  "stat_ok (v1_host quota period) ''/sys/fs/cgroup/cpu''"
  by (simp_all add: v1_host_def host_def)

lemma v1_host_levels:
  "levels cgroupV1CPUPath (Join cgroupV1CPUPath ''/'') = [''/sys/fs/cgroup/cpu'']"
  by (simp add: cgroupV1CPUPath_def join_root_v1)

lemma v1_host_sample:
  assumes "ParseInt (TrimSpace quota) = Inr a" and "ParseInt (TrimSpace period) = Inr b"
    and "a \<noteq> - 1" and "b \<noteq> 0"
  shows "calculateV1CPUQuota (v1_host quota period) ''/sys/fs/cgroup/cpu''
           = Inr (f64_div (float64_of_int a) (float64_of_int b))"
  using assms
  by (simp add: calculateV1CPUQuota_def join_v1_quota join_v1_period readIntFromFile_def
      v1_host_def host_def cgroupV1UnlimitedQuota_def)

lemma parse_zero_line: "ParseInt (TrimSpace ''0\<newline>'') = Inr 0"
  by code_simp

lemma parse_period_line: "ParseInt (TrimSpace ''100000\<newline>'') = Inr 100000"
  by code_simp

lemma zero_host_sample:
  "calculateV1CPUQuota (v1_host ''0\<newline>'' ''100000\<newline>'') ''/sys/fs/cgroup/cpu'' = Inr (Fin 0)"
  by (simp add: v1_host_sample [OF parse_zero_line parse_period_line] f64_div_dvd)

text \<open>
  Claim C10. When the least sample of the walk is exactly \<open>0\<close>, \<^verbatim>\<open>cgroupLimit\<close> returns
  \<open>(0, 0, nil)\<close>, which is also what it returns on a host with no cgroup file system:
  the caller cannot tell a quota of zero from no limit.
\<close>

theorem cgroupLimit_zero_quota:
  "(stat_ok sys ''/sys/fs/cgroup/cgroup.controllers''
       \<and> getProcessCgroupPath sys [] = Inr cp
       \<and> is_least (samples (calculateV2CPUQuota sys)
                     (levels cgroupV2Path (Join cgroupV2Path cp))) (Fin 0)
      \<longrightarrow> cgroupLimit sys = Some (Fin 0, Fin 0, None))
   \<and> (\<not> stat_ok sys ''/sys/fs/cgroup/cgroup.controllers'' \<and> stat_ok sys ''/sys/fs/cgroup/cpu''
       \<and> getProcessCgroupPath sys ''cpu'' = Inr cp
       \<and> is_least (samples (calculateV1CPUQuota sys)
                     (levels cgroupV1CPUPath (Join cgroupV1CPUPath cp))) (Fin 0)
      \<longrightarrow> cgroupLimit sys = Some (Fin 0, Fin 0, None))
   \<and> cgroupLimit (host False False files) = Some (Fin 0, Fin 0, None)"
proof (intro conjI impI)
  assume a: "stat_ok sys ''/sys/fs/cgroup/cgroup.controllers''
       \<and> getProcessCgroupPath sys [] = Inr cp
       \<and> is_least (samples (calculateV2CPUQuota sys)
                     (levels cgroupV2Path (Join cgroupV2Path cp))) (Fin 0)"
  then have "getEffectiveCPULimit sys
     = walkHierarchy (Join cgroupV2Path cp) (calculateV2CPUQuota sys) cgroupV2Path"
    by (simp add: getEffectiveCPULimit_v2)
  also have "\<dots> = Some (Inr (Fin 0))"
    using a by (intro walk_least_zero [where sys = sys]) (simp_all add: Join_rooted)
  finally show "cgroupLimit sys = Some (Fin 0, Fin 0, None)" by (rule cgroupLimit_of_zero)
next
  assume a: "\<not> stat_ok sys ''/sys/fs/cgroup/cgroup.controllers'' \<and> stat_ok sys ''/sys/fs/cgroup/cpu''
       \<and> getProcessCgroupPath sys ''cpu'' = Inr cp
       \<and> is_least (samples (calculateV1CPUQuota sys)
                     (levels cgroupV1CPUPath (Join cgroupV1CPUPath cp))) (Fin 0)"
  then have "getEffectiveCPULimit sys
     = walkHierarchy (Join cgroupV1CPUPath cp) (calculateV1CPUQuota sys) cgroupV1CPUPath"
    by (simp add: getEffectiveCPULimit_v1)
  also have "\<dots> = Some (Inr (Fin 0))"
    using a by (intro walk_least_zero [where sys = sys]) (simp_all add: Join_rooted)
  finally show "cgroupLimit sys = Some (Fin 0, Fin 0, None)" by (rule cgroupLimit_of_zero)
next
  have "getEffectiveCPULimit (host False False files) = Some (Inr (Fin 0))"
    by (simp add: getEffectiveCPULimit_def marker_path cgroupV1CPUPath_def host_def)
  then show "cgroupLimit (host False False files) = Some (Fin 0, Fin 0, None)"
    by (rule cgroupLimit_of_zero)
qed

text \<open>The v1 host with the quota \<open>0\<close> and the period \<open>100000\<close>.\<close>

theorem cgroupLimit_zero_quota_witness:
  "\<not> stat_ok (v1_host ''0\<newline>'' ''100000\<newline>'') ''/sys/fs/cgroup/cgroup.controllers''
   \<and> stat_ok (v1_host ''0\<newline>'' ''100000\<newline>'') ''/sys/fs/cgroup/cpu''
   \<and> getProcessCgroupPath (v1_host ''0\<newline>'' ''100000\<newline>'') ''cpu'' = Inr ''/''
   \<and> samples (calculateV1CPUQuota (v1_host ''0\<newline>'' ''100000\<newline>''))
        (levels cgroupV1CPUPath (Join cgroupV1CPUPath ''/'')) = [Fin 0]
   \<and> cgroupLimit (v1_host ''0\<newline>'' ''100000\<newline>'') = Some (Fin 0, Fin 0, None)
   \<and> cgroupLimit (host False False []) = Some (Fin 0, Fin 0, None)"
proof -
  let ?h = "v1_host ''0\<newline>'' ''100000\<newline>''"
  have s: "samples (calculateV1CPUQuota ?h) (levels cgroupV1CPUPath (Join cgroupV1CPUPath ''/''))
      = [Fin 0]"
    by (simp add: v1_host_levels samples_def zero_host_sample)
  then have l: "is_least (samples (calculateV1CPUQuota ?h)
      (levels cgroupV1CPUPath (Join cgroupV1CPUPath ''/''))) (Fin 0)"
    by (simp add: is_least_def f64_le_def)
  from cgroupLimit_zero_quota [of ?h "''/''" "[]"] v1_host_stat [of "''0\<newline>''" "''100000\<newline>''"]
    v1_host_path [of "''0\<newline>''" "''100000\<newline>''"] l s
  show ?thesis by simp
qed

section \<open>The adjusted limit\<close>

lemma scan_v2_root: "scan_cgroup [] (raw_lines ''0::/\<newline>'') = Inr ''/''"
  by code_simp

lemma v2_host_path: "getProcessCgroupPath (v2_host content) [] = Inr ''/''"
  by (simp add: getProcessCgroupPath_def v2_host_def host_def scan_v2_root)

lemma v2_host_stat: "stat_ok (v2_host content) ''/sys/fs/cgroup/cgroup.controllers''"
  by (simp add: v2_host_def host_def)

lemma v2_host_sample:
  assumes "Fields content = [q, p]" and "q \<noteq> ''max''"
    and "ParseInt q = Inr a" and "ParseInt p = Inr b" and "b \<noteq> 0"
  shows "calculateV2CPUQuota (v2_host content) ''/sys/fs/cgroup''
           = Inr (f64_div (float64_of_int a) (float64_of_int b))"
  using assms by (simp add: calculateV2CPUQuota_def v2_host_file)

lemma v2_host_effective:
  assumes "calculateV2CPUQuota (v2_host content) ''/sys/fs/cgroup'' = Inr (Fin e)"
  shows "getEffectiveCPULimit (v2_host content) = Some (Inr (Fin e))"
  using assms
  by (simp add: getEffectiveCPULimit_v2 [OF v2_host_stat v2_host_path] cgroupV2Path_def
      join_root_v2 walkHierarchy_levels rooted_def samples_def)

lemma fields_quotas:
  "Fields ''50000 100000'' = [''50000'', ''100000'']"
  "Fields ''100000 100000'' = [''100000'', ''100000'']"
  "Fields ''230000 100000'' = [''230000'', ''100000'']"
  "Fields ''500000 100000'' = [''500000'', ''100000'']"
  by code_simp+

lemma parse_quotas:
  "ParseInt ''50000'' = Inr 50000" "ParseInt ''230000'' = Inr 230000"
  "ParseInt ''500000'' = Inr 500000"
  by code_simp+

lemma round_half: "round_f64 (1 / 2) = Fin (1 / 2)"
  using round_f64_exact [of 1 "- 1"] by simp

lemma round_2_3: "round_f64 (23 / 10) = Fin (2589569785738035 / 1125899906842624)"
  using round_f64_eqI [of 1 "23 / 10" "- 51" 5179139571476070] by simp

lemma effective_half:
  "getEffectiveCPULimit (v2_host ''50000 100000'') = Some (Inr (Fin (1 / 2)))"
  by (rule v2_host_effective)
    (simp add: v2_host_sample [OF fields_quotas(1) _ parse_quotas(1) parse_samples(2)]
      f64_div_small round_half)

lemma effective_one:
  "getEffectiveCPULimit (v2_host ''100000 100000'') = Some (Inr (Fin 1))"
  by (rule v2_host_effective)
    (simp add: v2_host_sample [OF fields_quotas(2) _ parse_samples(2) parse_samples(2)]
      f64_div_dvd)

lemma effective_2_3:
  "getEffectiveCPULimit (v2_host ''230000 100000'')
     = Some (Inr (Fin (2589569785738035 / 1125899906842624)))"
  by (rule v2_host_effective)
    (simp add: v2_host_sample [OF fields_quotas(3) _ parse_quotas(2) parse_samples(2)]
      f64_div_small round_2_3)

lemma effective_five:
  "getEffectiveCPULimit (v2_host ''500000 100000'') = Some (Inr (Fin 5))"
  by (rule v2_host_effective)
    (simp add: v2_host_sample [OF fields_quotas(4) _ parse_quotas(3) parse_samples(2)]
      f64_div_dvd)

lemma Max_f64_Fin: "Max_f64 (Fin a) (Fin b) = Fin (max a b)"
  by (auto simp: Max_f64_def max_def)

lemma ceil_2_3: "\<lceil>2589569785738035 / 1125899906842624 :: rat\<rceil> = 3"
  by (rule ceiling_unique) simp_all

lemma ceil_half: "\<lceil>1 / 2 :: rat\<rceil> = 1"
  by (rule ceiling_unique) simp_all

text \<open>
  Claim C2. For every effective limit \<open>e > 0\<close> that \<^verbatim>\<open>getEffectiveCPULimit\<close> returns,
  \<^verbatim>\<open>cgroupLimit\<close> returns it with the adjusted limit \<open>max 2 \<lceil>e\<rceil>\<close> and no error.
\<close>

theorem cgroupLimit_adjusted:
  assumes "getEffectiveCPULimit sys = Some (Inr (Fin e))" and "0 < e"
  shows "cgroupLimit sys = Some (Fin e, Fin (max 2 (of_int \<lceil>e\<rceil>)), None)"
  using assms by (simp add: cgroupLimit_def Let_def Max_f64_Fin)

text \<open>The quotas 50000, 100000, 230000 and 500000 over the period 100000: the limits
  0.5, 1, the float nearest to 2.3 and 5 are adjusted to 2, 2, 3 and 5.\<close>

theorem cgroupLimit_adjusted_witness:
  "cgroupLimit (v2_host ''50000 100000'') = Some (Fin (1 / 2), Fin 2, None)
   \<and> cgroupLimit (v2_host ''100000 100000'') = Some (Fin 1, Fin 2, None)
   \<and> cgroupLimit (v2_host ''230000 100000'')
       = Some (Fin (2589569785738035 / 1125899906842624), Fin 3, None)
   \<and> \<bar>2589569785738035 / 1125899906842624 - 23 / 10 :: rat\<bar> < 1 / 10 ^ 15
   \<and> cgroupLimit (v2_host ''500000 100000'') = Some (Fin 5, Fin 5, None)"
  using cgroupLimit_adjusted [OF effective_half] cgroupLimit_adjusted [OF effective_one]
    cgroupLimit_adjusted [OF effective_2_3] cgroupLimit_adjusted [OF effective_five]
  by (simp add: ceil_2_3 ceil_half)


section \<open>The precision of a sample\<close>

text \<open>
  What the float quotient of a quota and a period is to their exact quotient: a finite
  float within a relative error of \<open>2 powi (- 51)\<close> (three roundings: two conversions and
  one division); for a quota and a period below \<open>2 ^ 53\<close>, whose conversions are exact,
  the exact quotient rounded once, which is the exact quotient itself when that has the
  form \<open>m * 2 powi k\<close> of a float, as it has when the period divides the quota.
\<close>

definition rounded_quotient :: "int \<Rightarrow> int \<Rightarrow> float64 \<Rightarrow> bool" where
  "rounded_quotient quota period s =
     (\<exists>y. s = Fin y
        \<and> \<bar>y - of_int quota / of_int period\<bar> \<le> of_int quota / of_int period * 2 powi (- 51)
        \<and> (quota < 2 ^ 53 \<and> period < 2 ^ 53 \<longrightarrow>
             s = round_f64 (of_int quota / of_int period)
             \<and> ((\<exists>m k. \<bar>m\<bar> < 2 ^ 53 \<and> - 1074 \<le> k
                     \<and> of_int quota / of_int period = (of_int m :: rat) * 2 powi k)
                  \<longrightarrow> y = of_int quota / of_int period)
             \<and> (period dvd quota \<longrightarrow> y = of_int (quota div period))))"

lemma sample_error:
  assumes q0: "0 \<le> quota" and q: "quota \<le> 2 ^ 63" and p0: "0 < period" and p: "period \<le> 2 ^ 63"
  shows "\<exists>y. f64_div (float64_of_int quota) (float64_of_int period) = Fin y
    \<and> \<bar>y - of_int quota / of_int period\<bar> \<le> of_int quota / of_int period * 2 powi (- 51)"
proof (cases "quota = 0")
  case True
  from p0 p have "\<bar>period\<bar> \<le> 2 ^ 63" and "period \<noteq> 0" by simp_all
  from float64_of_int_bounds [OF this] obtain b where
    "float64_of_int period = Fin b" and "1 / 2 \<le> \<bar>b\<bar>" by blast
  then have "f64_div (float64_of_int 0) (float64_of_int period) = Fin 0"
    by (auto simp: float64_of_int_def round_f64_def)
  with True show ?thesis by simp
next
  case False
  define u :: rat where "u = 2 powi (- 53)"
  define Q :: rat where "Q = of_int quota"
  define P :: rat where "P = of_int period"
  have u: "0 < u" "u < 1" "(1 + u) / (1 - u) * (1 + u) \<le> 1 + 4 * u"
    "1 - 4 * u \<le> (1 - u) / (1 + u) * (1 - u)" "4 * u = 2 powi (- 51)"
    by (simp_all add: u_def power_int_minus field_simps)
  from False q0 have Q1: "1 \<le> Q" by (simp add: Q_def)
  from p0 have P1: "1 \<le> P" by (simp add: P_def)
  from q0 q have "\<bar>quota\<bar> \<le> 2 ^ 63" by simp
  from float64_of_int_int64 [OF this] obtain a where
    a: "float64_of_int quota = Fin a" and ae: "\<bar>a - Q\<bar> \<le> \<bar>Q\<bar> * u"
    by (auto simp: Q_def u_def)
  from p0 p have "\<bar>period\<bar> \<le> 2 ^ 63" by simp
  from float64_of_int_int64 [OF this] obtain b where
    b: "float64_of_int period = Fin b" and be: "\<bar>b - P\<bar> \<le> \<bar>P\<bar> * u"
    by (auto simp: P_def u_def)
  from ae Q1 have a_lo: "Q * (1 - u) \<le> a" and a_hi: "a \<le> Q * (1 + u)"
    by (simp_all add: abs_le_iff algebra_simps)
  from be P1 have b_lo: "P * (1 - u) \<le> b" and b_hi: "b \<le> P * (1 + u)"
    by (simp_all add: abs_le_iff algebra_simps)
  have Pu: "0 < P * (1 - u)" using P1 u by simp
  with b_lo have b0: "0 < b" by linarith
  have Qu: "0 < Q * (1 - u)" using Q1 u by simp
  with a_lo have a0: "0 < a" by linarith
  define z where "z = a / b"
  define r where "r = Q / P"
  have r0: "0 < r" using Q1 P1 by (simp add: r_def)
  have z0: "0 < z" using a0 b0 by (simp add: z_def)
  have "z \<le> (Q * (1 + u)) / (P * (1 - u))"
    unfolding z_def using a0 a_hi Pu b_lo by (intro frac_le) simp_all
  then have z_hi: "z \<le> r * ((1 + u) / (1 - u))" by (simp add: r_def)
  have "(Q * (1 - u)) / (P * (1 + u)) \<le> z"
    unfolding z_def using Qu a_lo b0 b_hi by (intro frac_le) simp_all
  then have z_lo: "r * ((1 - u) / (1 + u)) \<le> z" by (simp add: r_def)
  have S: "f64_div (float64_of_int quota) (float64_of_int period) = round_f64 z"
    using a b b0 by (simp add: z_def)
  have "\<bar>quota\<bar> \<le> 2 ^ 63" "\<bar>period\<bar> \<le> 2 ^ 63" "period \<noteq> 0" "quota \<noteq> 0"
    using q0 q p0 p False by simp_all
  have zr: "(2::rat) powi (- 1022) \<le> \<bar>z\<bar> \<and> \<bar>z\<bar> < 2 powi 1023"
  proof -
    from float64_of_int_bounds [OF \<open>\<bar>quota\<bar> \<le> 2 ^ 63\<close> \<open>quota \<noteq> 0\<close>] a
    have a1: "1 / 2 \<le> \<bar>a\<bar>" and a2: "\<bar>a\<bar> \<le> 2 ^ 64" by auto
    from float64_of_int_bounds [OF \<open>\<bar>period\<bar> \<le> 2 ^ 63\<close> \<open>period \<noteq> 0\<close>] b
    have b1: "1 / 2 \<le> \<bar>b\<bar>" and b2: "\<bar>b\<bar> \<le> 2 ^ 64" by auto
    have B: "(1 / 2) / 2 ^ 64 \<le> \<bar>a\<bar> / \<bar>b\<bar>"
      using a1 b2 b1 by (intro frac_le) simp_all
    have A: "(2::rat) powi (- 1022) \<le> (1 / 2) / 2 ^ 64"
    proof -
      have "(2::rat) powi (- 1022) \<le> 2 powi (- 65)" by (rule power_int_increasing) simp_all
      also have "(2::rat) powi (- 65) = (1 / 2) / 2 ^ 64" by (simp add: power_int_minus field_simps)
      finally show ?thesis .
    qed
    from A B have "(2::rat) powi (- 1022) \<le> \<bar>a\<bar> / \<bar>b\<bar>" by (rule order_trans)
    then have lo: "(2::rat) powi (- 1022) \<le> \<bar>z\<bar>" by (simp only: z_def abs_divide)
    have C: "\<bar>a\<bar> / \<bar>b\<bar> \<le> 2 ^ 64 / (1 / 2)"
      using a2 b1 by (intro frac_le) simp_all
    have D: "(2::rat) ^ 64 / (1 / 2) < 2 powi 1023" by simp
    from C D have "\<bar>a\<bar> / \<bar>b\<bar> < 2 powi 1023" by (rule le_less_trans)
    then have hi: "\<bar>z\<bar> < 2 powi 1023" by (simp only: z_def abs_divide)
    from lo hi show ?thesis ..
  qed
  from round_f64_normal [of z] zr obtain y where
    y: "round_f64 z = Fin y" and ye: "\<bar>y - z\<bar> \<le> \<bar>z\<bar> * u"
    by (auto simp: u_def)
  from ye z0 have y_lo: "z * (1 - u) \<le> y" and y_hi: "y \<le> z * (1 + u)"
    by (simp_all add: abs_le_iff algebra_simps)
  have "y \<le> r * ((1 + u) / (1 - u)) * (1 + u)"
  proof -
    have "z * (1 + u) \<le> r * ((1 + u) / (1 - u)) * (1 + u)"
      using z_hi u by (intro mult_right_mono) simp_all
    with y_hi show ?thesis by linarith
  qed
  also have "\<dots> = r * ((1 + u) / (1 - u) * (1 + u))" by simp
  also have "\<dots> \<le> r * (1 + 4 * u)"
    using u(3) r0 by (intro mult_left_mono) simp_all
  finally have up: "y - r \<le> r * (4 * u)" by (simp add: algebra_simps)
  have "r * (1 - 4 * u) \<le> r * ((1 - u) / (1 + u) * (1 - u))"
    using u(4) r0 by (intro mult_left_mono) simp_all
  also have "\<dots> = r * ((1 - u) / (1 + u)) * (1 - u)" by simp
  also have "\<dots> \<le> z * (1 - u)"
    using z_lo u by (intro mult_right_mono) simp_all
  also note y_lo
  finally have dn: "r - y \<le> r * (4 * u)" by (simp add: algebra_simps)
  from up dn have "\<bar>y - r\<bar> \<le> r * (4 * u)" by (simp add: abs_le_iff)
  then have "\<bar>y - Q / P\<bar> \<le> Q / P * 2 powi (- 51)"
    by (simp only: r_def u(5))
  with S y show ?thesis by (simp add: Q_def P_def)
qed

lemma parse_max: "ParseInt ''max'' = Inl ErrSyntax"
  by code_simp

lemma sample_rounded_quotient:
  assumes q0: "0 \<le> quota" and q: "quota < 2 ^ 63" and p0: "0 < period" and p: "period < 2 ^ 63"
  shows "rounded_quotient quota period (f64_div (float64_of_int quota) (float64_of_int period))"
proof -
  let ?s = "f64_div (float64_of_int quota) (float64_of_int period)"
  let ?r = "of_int quota / of_int period :: rat"
  from sample_error [of quota period] assms obtain y where
    y: "?s = Fin y" and err: "\<bar>y - ?r\<bar> \<le> ?r * 2 powi (- 51)"
    by auto
  have small: "?s = round_f64 ?r
      \<and> ((\<exists>m k. \<bar>m\<bar> < 2 ^ 53 \<and> - 1074 \<le> k \<and> ?r = (of_int m :: rat) * 2 powi k) \<longrightarrow> y = ?r)
      \<and> (period dvd quota \<longrightarrow> y = of_int (quota div period))"
    if s: "quota < 2 ^ 53 \<and> period < 2 ^ 53"
  proof -
    from s q0 p0 have a: "\<bar>quota\<bar> < 2 ^ 53" and b: "\<bar>period\<bar> < 2 ^ 53" and nz: "period \<noteq> 0"
      by simp_all
    have R: "?s = round_f64 ?r" using a b nz by (rule f64_div_small)
    have E: "y = ?r" if "\<bar>m\<bar> < 2 ^ 53" and "- 1074 \<le> k" and mk: "?r = (of_int m :: rat) * 2 powi k"
      for m k
    proof -
      have "?r \<le> of_int quota / 1"
        using q0 p0 by (intro divide_left_mono) simp_all
      also have "\<dots> < 2 ^ 53" using s by (simp add: of_int_less_numeral_power_cancel_iff)
      also have "(2::rat) ^ 53 < 2 powi 1024" by simp
      finally have "?r < 2 powi 1024" .
      moreover have "0 \<le> ?r" using q0 p0 by simp
      ultimately have "\<bar>(of_int m :: rat) * 2 powi k\<bar> < 2 powi 1024"
        unfolding mk [symmetric] by simp
      from round_f64_exact [OF that(1,2) this] have "round_f64 ?r = Fin ?r"
        by (simp only: mk [symmetric])
      with R y show ?thesis by simp
    qed
    have D: "y = of_int (quota div period)" if "period dvd quota"
      using f64_div_dvd [OF a b nz that] y by simp
    from R E D show ?thesis by blast
  qed
  from y err small show ?thesis
    unfolding rounded_quotient_def by blast
qed

text \<open>The quota 100000 over the period 300000 on a v1 host: the sample is the float
  nearest to one third, which is not one third.\<close>

lemma round_third: "round_f64 (1 / 3) = Fin (6004799503160661 / 18014398509481984)"
  using round_f64_eqI [of "- 2" "1 / 3" "- 54" 6004799503160661] by simp

lemma parse_third:
  "ParseInt (TrimSpace ''100000\<newline>'') = Inr 100000"
  "ParseInt (TrimSpace ''300000\<newline>'') = Inr 300000"
  by code_simp+

theorem quota_sample_exact_counterexample:
  "readIntFromFile (v1_host ''100000\<newline>'' ''300000\<newline>'')
      ''/sys/fs/cgroup/cpu/cpu.cfs_quota_us'' = Inr 100000
   \<and> readIntFromFile (v1_host ''100000\<newline>'' ''300000\<newline>'')
      ''/sys/fs/cgroup/cpu/cpu.cfs_period_us'' = Inr 300000
   \<and> calculateV1CPUQuota (v1_host ''100000\<newline>'' ''300000\<newline>'') ''/sys/fs/cgroup/cpu''
       = Inr (Fin (6004799503160661 / 18014398509481984))
   \<and> calculateV1CPUQuota (v1_host ''100000\<newline>'' ''300000\<newline>'') ''/sys/fs/cgroup/cpu''
       \<noteq> Inr (Fin (100000 / 300000))"
proof -
  have "calculateV1CPUQuota (v1_host ''100000\<newline>'' ''300000\<newline>'') ''/sys/fs/cgroup/cpu''
       = Inr (Fin (6004799503160661 / 18014398509481984))"
    by (simp add: v1_host_sample [OF parse_third] f64_div_small round_third)
  then show ?thesis
    by (simp add: readIntFromFile_def v1_host_def host_def parse_third)
qed

text \<open>
  Claim C8, amended. For every quota \<open>\<ge> 0\<close> and period \<open>> 0\<close> read at a level, the sample of
  \<^verbatim>\<open>calculateV1CPUQuota\<close> and of \<^verbatim>\<open>calculateV2CPUQuota\<close> is the float
  \<^verbatim>\<open>float64(quota) / float64(period)\<close>: finite, within a relative error of
  \<open>2 powi (- 51)\<close> of the exact \<open>quota / period\<close>, equal to \<open>quota / period\<close> rounded to the
  nearest float when both are below \<open>2 ^ 53\<close>, and then exactly \<open>quota / period\<close> whenever
  that value is a float, in particular when the period divides the quota.
\<close>

theorem quota_sample_rounded:
  assumes "0 \<le> quota" and "0 < period"
  shows "(readIntFromFile sys (Join path ''cpu.cfs_quota_us'') = Inr quota
          \<and> readIntFromFile sys (Join path ''cpu.cfs_period_us'') = Inr period
         \<longrightarrow> (\<exists>s. calculateV1CPUQuota sys path = Inr s \<and> rounded_quotient quota period s))
    \<and> (file_data sys (Join path ''cpu.max'') = Some content
        \<and> Fields content = [qs, ps] \<and> ParseInt qs = Inr quota \<and> ParseInt ps = Inr period
         \<longrightarrow> (\<exists>s. calculateV2CPUQuota sys path = Inr s \<and> rounded_quotient quota period s))"
proof (intro conjI impI)
  assume a: "readIntFromFile sys (Join path ''cpu.cfs_quota_us'') = Inr quota
          \<and> readIntFromFile sys (Join path ''cpu.cfs_period_us'') = Inr period"
  then have "quota < 2 ^ 63" and "period < 2 ^ 63"
    using ParseInt_range by (fastforce simp: readIntFromFile_def split: option.splits)+
  with assms have "rounded_quotient quota period
      (f64_div (float64_of_int quota) (float64_of_int period))"
    by (intro sample_rounded_quotient)
  moreover from a assms have "calculateV1CPUQuota sys path
      = Inr (f64_div (float64_of_int quota) (float64_of_int period))"
    by (simp add: calculateV1CPUQuota_def cgroupV1UnlimitedQuota_def)
  ultimately show "\<exists>s. calculateV1CPUQuota sys path = Inr s \<and> rounded_quotient quota period s"
    by simp
next
  assume a: "file_data sys (Join path ''cpu.max'') = Some content
        \<and> Fields content = [qs, ps] \<and> ParseInt qs = Inr quota \<and> ParseInt ps = Inr period"
  then have "quota < 2 ^ 63" and "period < 2 ^ 63"
    using ParseInt_range [of qs quota] ParseInt_range [of ps period] by simp_all
  with assms have "rounded_quotient quota period
      (f64_div (float64_of_int quota) (float64_of_int period))"
    by (intro sample_rounded_quotient)
  moreover from a have "qs \<noteq> ''max''" using parse_max by auto
  with a assms have "calculateV2CPUQuota sys path
      = Inr (f64_div (float64_of_int quota) (float64_of_int period))"
    by (simp add: calculateV2CPUQuota_def)
  ultimately show "\<exists>s. calculateV2CPUQuota sys path = Inr s \<and> rounded_quotient quota period s"
    by simp
qed

lemma both_host_reads:
  "readIntFromFile both_host (Join ''/sys/fs/cgroup/cpu'' ''cpu.cfs_quota_us'') = Inr 300000"
  "readIntFromFile both_host (Join ''/sys/fs/cgroup/cpu'' ''cpu.cfs_period_us'') = Inr 100000"
  "file_data both_host (Join ''/sys/fs/cgroup'' ''cpu.max'') = Some ''200000 100000\<newline>''"
  by code_simp+

text \<open>On the hybrid host the v1 sample is exactly 300000 / 100000 and the v2 sample is
  exactly 200000 / 100000.\<close>

theorem quota_sample_rounded_witness:
  "calculateV1CPUQuota both_host ''/sys/fs/cgroup/cpu'' = Inr (Fin 3)
   \<and> calculateV2CPUQuota both_host ''/sys/fs/cgroup'' = Inr (Fin 2)"
proof -
  have "\<exists>s. calculateV1CPUQuota both_host ''/sys/fs/cgroup/cpu'' = Inr s
          \<and> rounded_quotient 300000 100000 s"
    using quota_sample_rounded [where quota = 300000 and period = 100000 and sys = both_host
        and path = "''/sys/fs/cgroup/cpu''" and content = "[]" and qs = "[]" and ps = "[]"]
      both_host_reads
    by simp
  then have v1: "calculateV1CPUQuota both_host ''/sys/fs/cgroup/cpu'' = Inr (Fin 3)"
    by (auto simp: rounded_quotient_def)
  have "\<exists>s. calculateV2CPUQuota both_host ''/sys/fs/cgroup'' = Inr s
          \<and> rounded_quotient 200000 100000 s"
    using quota_sample_rounded [where quota = 200000 and period = 100000 and sys = both_host
        and path = "''/sys/fs/cgroup''" and content = "''200000 100000\<newline>''"
        and qs = "''200000''" and ps = "''100000''"]
      both_host_reads fields_two parse_samples
    by simp
  then have v2: "calculateV2CPUQuota both_host ''/sys/fs/cgroup'' = Inr (Fin 2)"
    by (auto simp: rounded_quotient_def)
  from v1 v2 show ?thesis ..
qed


section \<open>The minimum over the hierarchy\<close>

lemma unlimited_host_sample:
  "calculateV1CPUQuota (unlimited_host period) ''/sys/fs/cgroup/cpu'' = Inr PInf"
  by (simp add: calculateV1CPUQuota_def join_v1_quota readIntFromFile_def unlimited_host_quota
      parse_minus_one cgroupV1UnlimitedQuota_def)

text \<open>On the v1 host whose only level is unlimited the one calculation succeeds with the
  positive infinity, which is then the least sample, and the walk returns \<open>0\<close>.\<close>

theorem walkHierarchy_minimum_counterexample:
  "samples (calculateV1CPUQuota (unlimited_host None))
      (levels ''/sys/fs/cgroup/cpu'' ''/sys/fs/cgroup/cpu'') = [PInf]
   \<and> is_least [PInf] PInf
   \<and> walkHierarchy ''/sys/fs/cgroup/cpu'' (calculateV1CPUQuota (unlimited_host None))
        ''/sys/fs/cgroup/cpu'' = Some (Inr (Fin 0))
   \<and> \<not> is_least (samples (calculateV1CPUQuota (unlimited_host None))
            (levels ''/sys/fs/cgroup/cpu'' ''/sys/fs/cgroup/cpu'')) (Fin 0)"
  by (simp add: samples_def unlimited_host_sample is_least_def f64_le_def
      walkHierarchy_levels rooted_def Min_f64_def Let_def)

text \<open>A v2 host: the root allows 4 CPUs and the process's cgroup \<open>/child\<close> has no quota
  file.\<close>

definition child_host :: system where
  "child_host = host True False
     [(''/proc/self/cgroup'', ''0::/child\<newline>''),
      (''/sys/fs/cgroup/cpu.max'', ''400000 100000\<newline>'')]"

lemma child_host_levels:
  "levels ''/sys/fs/cgroup'' ''/sys/fs/cgroup/child'' = [''/sys/fs/cgroup/child'', ''/sys/fs/cgroup'']"
  by code_simp

lemma child_host_child:
  "calculateV2CPUQuota child_host ''/sys/fs/cgroup/child''
     = Inl (ReadError ''/sys/fs/cgroup/child/cpu.max'')"
  by code_simp

lemma child_host_root: "calculateV2CPUQuota child_host ''/sys/fs/cgroup'' = Inr (Fin 4)"
proof -
  have "file_data child_host ''/sys/fs/cgroup/cpu.max'' = Some ''400000 100000\<newline>''"
    by code_simp
  moreover have "Fields ''400000 100000\<newline>'' = [''400000'', ''100000'']"
    by code_simp
  moreover have "ParseInt ''400000'' = Inr 400000" and "ParseInt ''100000'' = Inr 100000"
    by code_simp+
  ultimately show ?thesis
    by (simp add: calculateV2CPUQuota_def join_cpu_max f64_div_dvd)
qed

text \<open>
  Claim C1, amended. For every absolute start path, every mount root and both quota
  calculations, \<^verbatim>\<open>walkHierarchy\<close> returns without error; a level whose calculation fails
  adds nothing to the samples; when some sample is finite the result is the least of the
  samples, and when there is no sample or every sample is the positive infinity the
  result is \<open>0\<close>.
\<close>

theorem walkHierarchy_minimum:
  assumes "rooted startPath"
    and "calcFunc = calculateV1CPUQuota sys \<or> calcFunc = calculateV2CPUQuota sys"
  shows "\<exists>r. walkHierarchy startPath calcFunc rootPath = Some (Inr r) \<and>
     (if \<forall>x\<in>set (samples calcFunc (levels rootPath startPath)). x = PInf then r = Fin 0
      else r \<noteq> PInf \<and> is_least (samples calcFunc (levels rootPath startPath)) r)"
  using assms(1) samples_not_NaN [OF assms(2)] by (rule walk_result)

text \<open>The root sample is 4, the child level has no quota file: the result is 4.\<close>

theorem walkHierarchy_minimum_witness:
  "rooted ''/sys/fs/cgroup/child''
   \<and> samples (calculateV2CPUQuota child_host) (levels ''/sys/fs/cgroup'' ''/sys/fs/cgroup/child'')
       = [Fin 4]
   \<and> walkHierarchy ''/sys/fs/cgroup/child'' (calculateV2CPUQuota child_host) ''/sys/fs/cgroup''
       = Some (Inr (Fin 4))"
proof -
  have r: "rooted ''/sys/fs/cgroup/child''" by (simp add: rooted_def)
  have s: "samples (calculateV2CPUQuota child_host)
      (levels ''/sys/fs/cgroup'' ''/sys/fs/cgroup/child'') = [Fin 4]"
    by (simp add: child_host_levels samples_def child_host_child child_host_root)
  from walkHierarchy_minimum [OF r, of "calculateV2CPUQuota child_host" child_host "''/sys/fs/cgroup''"]
  have "walkHierarchy ''/sys/fs/cgroup/child'' (calculateV2CPUQuota child_host) ''/sys/fs/cgroup''
       = Some (Inr (Fin 4))"
    by (auto simp: s is_least_def)
  with r s show ?thesis by simp
qed

section \<open>The line of the cpu controller\<close>

text \<open>What the scan of the membership file does: a line matches when it has exactly three
  fields between colons and its second field is empty (v2 mode) or has the controller's
  name as a run of bytes (v1 mode); the third field of the first matching line is
  returned, and with no matching line the error is the lookup error.\<close>

definition line_matches :: "string \<Rightarrow> string \<Rightarrow> bool" where
  "line_matches controller raw =
     (let parts = splitOn CHR '':'' (dropCR raw)
      in length parts = 3
         \<and> (if controller = [] then parts ! 1 = [] else Contains (parts ! 1) controller))"

lemma scan_cgroup_first_match:
  assumes "\<forall>l\<in>set pre. int (length l) < 65536 \<and> \<not> line_matches controller l"
    and "int (length raw) < 65536" and "line_matches controller raw"
  shows "scan_cgroup controller (pre @ raw # rest) = Inr (splitOn CHR '':'' (dropCR raw) ! 2)"
  using assms by (induction pre) (auto simp: line_matches_def Let_def split: if_splits)

lemma scan_cgroup_no_match:
  assumes "\<forall>l\<in>set ls. int (length l) < 65536 \<and> \<not> line_matches controller l"
  shows "scan_cgroup controller ls = Inl (PathNotFound controller)"
  using assms by (induction ls) (auto simp: line_matches_def Let_def split: if_splits)

text \<open>A v1 host where the cpuset hierarchy is listed before the cpu hierarchy, as on a
  systemd host: the service's CPU cgroup is \<open>/system.slice/app.service\<close>, its cpuset
  cgroup is the root.\<close>

definition systemd_cgroup :: string where
  "systemd_cgroup =
     ''4:cpuset:/\<newline>3:cpu,cpuacct:/system.slice/app.service\<newline>2:memory:/system.slice/app.service\<newline>''"

text \<open>
  Claim C7 at this file: in v1 mode \<^verbatim>\<open>getProcessCgroupPath\<close> returns the path \<open>/\<close> of the
  line of the cpuset controller, whose name contains the bytes \<open>cpu\<close>; the line whose
  comma-separated controller list has the element \<open>cpu\<close> is the second one, with the path
  \<open>/system.slice/app.service\<close>.
\<close>

theorem getProcessCgroupPath_takes_cpuset:
  "getProcessCgroupPath (host False True [(''/proc/self/cgroup'', systemd_cgroup)]) ''cpu''
     = Inr ''/''
   \<and> map (\<lambda>l. (splitOn CHR '','' (splitOn CHR '':'' l ! 1), splitOn CHR '':'' l ! 2))
        (raw_lines systemd_cgroup)
       = [([''cpuset''], ''/''),
          ([''cpu'', ''cpuacct''], ''/system.slice/app.service''),
          ([''memory''], ''/system.slice/app.service'')]"
  by code_simp

end
